theory Spec2Isabelle
  imports Main "HOL-Library.Word"
begin

unbundle bit_operations_syntax

section \<open>Route translation: from a Knative Ingress to OpenShift Routes\<close>

subsection \<open>Values supplied by libraries outside the repository\<close>

text \<open>
  The package \<open>resources\<close> refers to constants and functions of its dependencies whose
  definitions are not part of the repository: the annotation and label keys of
  \<open>knative.dev/networking\<close>, the default revision timeout of \<open>knative.dev/serving\<close>,
  the Unicode branch of \<open>strings.ToLower\<close>, and the rendering by \<open>fmt\<close> of a format
  string that holds a percent sign and has no operands. They are parameters of the model.
\<close>

type_synonym byte = "8 word"

record deps =
  HTTPOptionAnnotationKey :: string
  IngressLabelKey :: string
  DefaultMaxRevisionTimeoutSeconds :: nat
  unicodeToLower :: "string \<Rightarrow> string"
  fmtNoOperands :: "string \<Rightarrow> string"

subsection \<open>Constants of the package\<close>

definition TimeoutAnnotation :: string where
  "TimeoutAnnotation = ''haproxy.router.openshift.io/timeout''"

definition DisableRouteAnnotation :: string where
  "DisableRouteAnnotation = ''serving.knative.openshift.io/disableRoute''"

definition EnablePassthroughRouteAnnotation :: string where
  "EnablePassthroughRouteAnnotation = ''serving.knative.openshift.io/enablePassthrough''"

definition HTTPPort :: string where
  "HTTPPort = ''http2''"

definition HTTPSPort :: string where
  "HTTPSPort = ''https''"

definition OpenShiftIngressLabelKey :: string where
  "OpenShiftIngressLabelKey = ''serving.knative.openshift.io/ingressName''"

definition OpenShiftIngressNamespaceLabelKey :: string where
  "OpenShiftIngressNamespaceLabelKey = ''serving.knative.openshift.io/ingressNamespace''"

text \<open>Decimal printing of a number, as \<open>%v\<close> prints an integer constant.\<close>

definition digitChar :: "nat \<Rightarrow> char" where
  "digitChar d = ''0123456789abcdef'' ! d"

fun showNat :: "nat \<Rightarrow> string" where
  "showNat n = (if n < 10 then [digitChar n] else showNat (n div 10) @ [digitChar (n mod 10)])"

declare showNat.simps [simp del]

definition DefaultTimeout :: "deps \<Rightarrow> string" where
  "DefaultTimeout K = showNat (DefaultMaxRevisionTimeoutSeconds K) @ ''s''"

subsection \<open>Strings\<close>

text \<open>
  \<open>strings.Split(s, ".")\<close>: the pieces of \<open>s\<close> between the separators, so that a
  string with \<open>n\<close> separators has \<open>n + 1\<close> pieces and the empty string has the one
  piece \<open>""\<close>. Both calls of the package split at a single character.
\<close>

fun Split :: "string \<Rightarrow> char \<Rightarrow> string list" where
  "Split [] sep = [[]]"
| "Split (c # cs) sep =
     (if c = sep then [] # Split cs sep
      else (case Split cs sep of [] \<Rightarrow> [[c]] | p # ps \<Rightarrow> (c # p) # ps))"

text \<open>
  \<open>strings.ToLower\<close>: a string of ASCII bytes only has its letters \<open>A\<close> to \<open>Z\<close>
  replaced; any other string goes through the Unicode tables.
\<close>

definition asciiLower :: "char \<Rightarrow> char" where
  "asciiLower c =
     (if of_char CHR ''A'' \<le> (of_char c :: nat) \<and> (of_char c :: nat) \<le> of_char CHR ''Z''
      then char_of ((of_char c :: nat) + 32) else c)"

definition isASCII :: "string \<Rightarrow> bool" where
  "isASCII s = list_all (\<lambda>c. (of_char c :: nat) < 128) s"

definition ToLower :: "deps \<Rightarrow> string \<Rightarrow> string" where
  "ToLower K s = (if isASCII s then map asciiLower s else unicodeToLower K s)"

text \<open>The verb \<open>%x\<close> on a byte array and on a string: two lower-case digits a byte.\<close>

definition hexByte :: "nat \<Rightarrow> string" where
  "hexByte b = [digitChar (b div 16), digitChar (b mod 16)]"

definition hexBytes :: "byte list \<Rightarrow> string" where
  "hexBytes bs = concat (map (\<lambda>b. hexByte (unat b)) bs)"

definition hexString :: "string \<Rightarrow> string" where
  "hexString s = concat (map (\<lambda>c. hexByte (of_char c)) s)"

subsection \<open>The data model\<close>

datatype IngressVisibility = IngressVisibilityExternalIP | IngressVisibilityClusterLocal

datatype HTTPOption = HTTPOptionEnabled | HTTPOptionRedirected

record IngressRule =
  Hosts :: "string list"
  Visibility :: IngressVisibility

record LoadBalancerIngressStatus =
  DomainInternal :: string

text \<open>
  A Go map is a reference: \<open>Annotations\<close> is \<open>None\<close> for the nil map and \<open>Some m\<close>
  for an allocated one, which a callee can write to. \<open>PublicLoadBalancer\<close> is a
  pointer to the status, \<open>None\<close> when nil. \<open>TLS\<close> lists the secret references by name.
\<close>

record Ingress =
  Name :: string
  Namespace :: string
  UID :: string
  Labels :: "string \<rightharpoonup> string"
  Annotations :: "(string \<rightharpoonup> string) option"
  Rules :: "IngressRule list"
  TLS :: "string list"
  HTTPOption :: HTTPOption
  PublicLoadBalancer :: "LoadBalancerIngressStatus list option"

datatype TLSTermination = TLSTerminationEdge | TLSTerminationPassthrough

datatype InsecureEdgeTerminationPolicy =
  InsecureEdgeTerminationPolicyAllow | InsecureEdgeTerminationPolicyRedirect

datatype WildcardPolicy = WildcardPolicyNone

record Route =
  routeName_of :: string
  routeNamespace :: string
  routeLabels :: "string \<rightharpoonup> string"
  routeAnnotations :: "string \<rightharpoonup> string"
  routeHost :: string
  TargetPort :: string
  ToKind :: string
  ToName :: string
  ToWeight :: "32 word"
  Termination :: TLSTermination
  InsecurePolicy :: InsecureEdgeTerminationPolicy
  Wildcard :: WildcardPolicy

text \<open>
  The two errors of the package: the sentinel \<open>ErrNoValidLoadbalancerDomain\<close>, and the
  error that \<open>fmt.Errorf\<close> makes for a wrong HTTP-option annotation, which carries the
  message that \<open>fmt.Errorf\<close> built.
\<close>

datatype Error =
  ErrNoValidLoadbalancerDomain
| ErrIncorrectHTTPOption string

definition errorMessage :: "Error \<Rightarrow> string" where
  "errorMessage e = (case e of
       ErrNoValidLoadbalancerDomain \<Rightarrow> ''unable to find Ingress LoadBalancer with DomainInternal set''
     | ErrIncorrectHTTPOption msg \<Rightarrow> msg)"

text \<open>
  \<open>fmt.Errorf(format)\<close> without operands: the text of a format string is copied up to
  the first percent sign, so a format without one is the message; from a percent sign
  on, \<open>fmt\<close> reads verbs (and prints \<open>%d\<close> as \<open>%!d(MISSING)\<close>, for one).
\<close>

definition Errorf :: "deps \<Rightarrow> string \<Rightarrow> string" where
  "Errorf K format = (if CHR ''%'' \<in> set format then fmtNoOperands K format else format)"

subsection \<open>SHA-256\<close>

text \<open>
  \<open>sha256.Sum256\<close> of Go's standard library computes the digest of FIPS 180-4:
  the message is padded to a multiple of 64 bytes and every block is compressed into
  a state of eight 32-bit words. The round constants and the initial state are written
  in decimal.
\<close>

type_synonym u32 = "32 word"

definition rotr :: "nat \<Rightarrow> u32 \<Rightarrow> u32" where
  "rotr n x = drop_bit n x OR push_bit (32 - n) x"

definition Ch :: "u32 \<Rightarrow> u32 \<Rightarrow> u32 \<Rightarrow> u32" where
  "Ch x y z = (x AND y) XOR (NOT x AND z)"

definition Maj :: "u32 \<Rightarrow> u32 \<Rightarrow> u32 \<Rightarrow> u32" where
  "Maj x y z = (x AND y) XOR (x AND z) XOR (y AND z)"

definition bsig0 :: "u32 \<Rightarrow> u32" where
  "bsig0 x = rotr 2 x XOR rotr 13 x XOR rotr 22 x"

definition bsig1 :: "u32 \<Rightarrow> u32" where
  "bsig1 x = rotr 6 x XOR rotr 11 x XOR rotr 25 x"

definition ssig0 :: "u32 \<Rightarrow> u32" where
  "ssig0 x = rotr 7 x XOR rotr 18 x XOR drop_bit 3 x"

definition ssig1 :: "u32 \<Rightarrow> u32" where
  "ssig1 x = rotr 17 x XOR rotr 19 x XOR drop_bit 10 x"

definition K256 :: "u32 list" where
  "K256 = [
     1116352408, 1899447441, 3049323471, 3921009573,
     961987163, 1508970993, 2453635748, 2870763221,
     3624381080, 310598401, 607225278, 1426881987,
     1925078388, 2162078206, 2614888103, 3248222580,
     3835390401, 4022224774, 264347078, 604807628,
     770255983, 1249150122, 1555081692, 1996064986,
     2554220882, 2821834349, 2952996808, 3210313671,
     3336571891, 3584528711, 113926993, 338241895,
     666307205, 773529912, 1294757372, 1396182291,
     1695183700, 1986661051, 2177026350, 2456956037,
     2730485921, 2820302411, 3259730800, 3345764771,
     3516065817, 3600352804, 4094571909, 275423344,
     430227734, 506948616, 659060556, 883997877,
     958139571, 1322822218, 1537002063, 1747873779,
     1955562222, 2024104815, 2227730452, 2361852424,
     2428436474, 2756734187, 3204031479, 3329325298]"

definition H0 :: "u32 list" where
  "H0 = [1779033703, 3144134277, 1013904242, 2773480762,
         1359893119, 2600822924, 528734635, 1541459225]"

text \<open>Big-endian words from bytes and back; the bit length as eight bytes.\<close>

definition be32 :: "byte list \<Rightarrow> u32" where
  "be32 bs = foldl (\<lambda>acc b. push_bit 8 acc OR ucast b) 0 bs"

definition u32_bytes :: "u32 \<Rightarrow> byte list" where
  "u32_bytes w = [ucast (drop_bit 24 w), ucast (drop_bit 16 w), ucast (drop_bit 8 w), ucast w]"

definition u64_bytes :: "64 word \<Rightarrow> byte list" where
  "u64_bytes n = map (\<lambda>i. ucast (drop_bit (8 * (7 - i)) n)) [0..<8]"

definition pad :: "byte list \<Rightarrow> byte list" where
  "pad m = m @ [0x80] @ replicate ((119 - length m mod 64) mod 64) 0
             @ u64_bytes (of_nat (8 * length m))"

fun chunks :: "nat \<Rightarrow> nat \<Rightarrow> 'a list \<Rightarrow> 'a list list" where
  "chunks k 0 xs = []"
| "chunks k (Suc n) xs = take k xs # chunks k n (drop k xs)"

text \<open>The message schedule; \<open>w\<close> holds the words so far, the most recent first.\<close>

fun extend :: "nat \<Rightarrow> u32 list \<Rightarrow> u32 list" where
  "extend 0 w = w"
| "extend (Suc n) w =
     extend n ((ssig1 (w ! 1) + w ! 6 + ssig0 (w ! 14) + w ! 15) # w)"

definition schedule :: "byte list \<Rightarrow> u32 list" where
  "schedule blk = rev (extend 48 (rev (map be32 (chunks 4 16 blk))))"

definition roundOut :: "u32 list \<Rightarrow> u32 \<Rightarrow> u32 \<Rightarrow> u32 list" where
  "roundOut s t1 t2 = [t1 + t2, s ! 0, s ! 1, s ! 2, s ! 3 + t1, s ! 4, s ! 5, s ! 6]"

definition round256 :: "u32 list \<Rightarrow> u32 \<times> u32 \<Rightarrow> u32 list" where
  "round256 s kw =
     roundOut s (s ! 7 + bsig1 (s ! 4) + Ch (s ! 4) (s ! 5) (s ! 6) + fst kw + snd kw)
                (bsig0 (s ! 0) + Maj (s ! 0) (s ! 1) (s ! 2))"

definition compress :: "u32 list \<Rightarrow> byte list \<Rightarrow> u32 list" where
  "compress hs blk = map2 (+) hs (foldl round256 hs (zip K256 (schedule blk)))"

definition Sum256 :: "byte list \<Rightarrow> byte list" where
  "Sum256 m = concat (map u32_bytes
                (foldl compress H0 (chunks 64 (length (pad m) div 64) (pad m))))"

text \<open>The conversion \<open>[]byte(host)\<close>.\<close>

definition bytesOf :: "string \<Rightarrow> byte list" where
  "bytesOf s = map of_char s"

subsection \<open>Route names\<close>

definition hashHost :: "string \<Rightarrow> string" where
  "hashHost host = take 6 (hexBytes (Sum256 (bytesOf host)))"

definition routeName :: "string \<Rightarrow> string \<Rightarrow> string" where
  "routeName uid host = ''route-'' @ uid @ ''-'' @ hexString (hashHost host)"

subsection \<open>makeRoute\<close>

text \<open>Reading a Go map of strings: an absent key reads as the empty string.\<close>

definition lookupStr :: "(string \<rightharpoonup> string) \<Rightarrow> string \<Rightarrow> string" where
  "lookupStr m k = (case m k of None \<Rightarrow> [] | Some v \<Rightarrow> v)"

text \<open>
  The body of the loop over the load-balancer entries: \<open>acc\<close> is the pair
  \<open>(serviceName, namespace)\<close> assigned so far. The loop has no \<open>break\<close>.
\<close>

definition lbStep :: "string \<times> string \<Rightarrow> LoadBalancerIngressStatus \<Rightarrow> string \<times> string" where
  "lbStep acc lbIngress =
     (if DomainInternal lbIngress \<noteq> [] then
        (let parts = Split (DomainInternal lbIngress) CHR ''.'' in
         if length parts > 2 \<and> parts ! 2 = ''svc'' then (parts ! 0, parts ! 1) else acc)
      else acc)"

definition resolveService :: "Ingress \<Rightarrow> string \<times> string" where
  "resolveService ci =
     (case PublicLoadBalancer ci of
        None \<Rightarrow> ([], [])
      | Some lbs \<Rightarrow> foldl lbStep ([], []) lbs)"

definition unionLabels :: "deps \<Rightarrow> Ingress \<Rightarrow> (string \<rightharpoonup> string)" where
  "unionLabels K ci =
     Labels ci ++ (Map.empty(IngressLabelKey K \<mapsto> Name ci,
                             OpenShiftIngressLabelKey \<mapsto> Name ci,
                             OpenShiftIngressNamespaceLabelKey \<mapsto> Namespace ci))"

text \<open>
  \<open>makeRoute\<close> returns the ingress as the call leaves it together with the result: an
  error, no route (\<open>nil, nil\<close>) or a route. The write of the timeout goes to the map
  that \<open>GetAnnotations\<close> returned, which is the ingress's own map unless that was nil.
\<close>

definition makeRoute ::
  "deps \<Rightarrow> Ingress \<Rightarrow> string \<Rightarrow> IngressRule \<Rightarrow> Ingress \<times> (Error + Route option)" where
  "makeRoute K ci host rule =
     (let annotations0 = (case Annotations ci of None \<Rightarrow> Map.empty | Some m \<Rightarrow> m) in
      if Visibility rule = IngressVisibilityClusterLocal then (ci, Inr None)
      else if annotations0 DisableRouteAnnotation \<noteq> None then (ci, Inr None)
      else
        let annotations = annotations0(TimeoutAnnotation \<mapsto> DefaultTimeout K);
            ci' = (case Annotations ci of None \<Rightarrow> ci
                   | Some m \<Rightarrow> ci\<lparr>Annotations := Some annotations\<rparr>);
            labels = unionLabels K ci;
            name = routeName (UID ci) host;
            (serviceName, namespace) = resolveService ci
        in
        if serviceName = [] \<or> namespace = [] then (ci', Inl ErrNoValidLoadbalancerDomain)
        else
          let terminationPolicy0 =
                (if HTTPOption ci = HTTPOptionRedirected
                 then InsecureEdgeTerminationPolicyRedirect
                 else InsecureEdgeTerminationPolicyAllow);
              annotation = lookupStr annotations (HTTPOptionAnnotationKey K);
              lowered = ToLower K annotation
          in
          if annotation \<noteq> [] \<and> lowered \<noteq> ''enabled'' \<and> lowered \<noteq> ''redirected''
          then (ci', Inl (ErrIncorrectHTTPOption
                            (Errorf K (''incorrect HTTPOption annotation: '' @ annotation))))
          else
            let terminationPolicy =
                  (if annotation \<noteq> [] then
                     (if lowered = ''enabled'' then InsecureEdgeTerminationPolicyAllow
                      else InsecureEdgeTerminationPolicyRedirect)
                   else terminationPolicy0);
                route = \<lparr> routeName_of = name, routeNamespace = namespace,
                          routeLabels = labels, routeAnnotations = annotations,
                          routeHost = host, TargetPort = HTTPPort,
                          ToKind = ''Service'', ToName = serviceName, ToWeight = 100,
                          Termination = TLSTerminationEdge,
                          InsecurePolicy = terminationPolicy,
                          Wildcard = WildcardPolicyNone \<rparr>
            in
            if annotations EnablePassthroughRouteAnnotation \<noteq> None \<or> length (TLS ci) > 0
            then (ci', Inr (Some (route\<lparr> TargetPort := HTTPSPort,
                                            Termination := TLSTerminationPassthrough,
                                            InsecurePolicy := InsecureEdgeTerminationPolicyRedirect \<rparr>)))
            else (ci', Inr (Some route)))"

subsection \<open>MakeRoutes\<close>

definition routableHost :: "string \<Rightarrow> bool" where
  "routableHost host =
     (let parts = Split host CHR ''.'' in
      length parts = 2 \<or> (length parts > 2 \<and> parts ! 2 \<noteq> ''svc''))"

text \<open>The inner loop, over the hosts of one rule; \<open>routes\<close> is the slice built so far.\<close>

fun hostsLoop ::
  "deps \<Rightarrow> IngressRule \<Rightarrow> string list \<Rightarrow> Ingress \<Rightarrow> Route list \<Rightarrow> Ingress \<times> (Error + Route list)" where
  "hostsLoop K rule [] ci routes = (ci, Inr routes)"
| "hostsLoop K rule (host # hosts) ci routes =
     (if routableHost host then
        (case makeRoute K ci host rule of
           (ci', Inl err) \<Rightarrow> (ci', Inl err)
         | (ci', Inr None) \<Rightarrow> hostsLoop K rule hosts ci' routes
         | (ci', Inr (Some route)) \<Rightarrow> hostsLoop K rule hosts ci' (routes @ [route]))
      else hostsLoop K rule hosts ci routes)"

text \<open>The outer loop, over the rules.\<close>

fun rulesLoop ::
  "deps \<Rightarrow> IngressRule list \<Rightarrow> Ingress \<Rightarrow> Route list \<Rightarrow> Ingress \<times> (Error + Route list)" where
  "rulesLoop K [] ci routes = (ci, Inr routes)"
| "rulesLoop K (rule # rules) ci routes =
     (if Visibility rule = IngressVisibilityClusterLocal then rulesLoop K rules ci routes
      else (case hostsLoop K rule (Hosts rule) ci routes of
              (ci', Inl err) \<Rightarrow> (ci', Inl err)
            | (ci', Inr routes') \<Rightarrow> rulesLoop K rules ci' routes'))"

definition MakeRoutes :: "deps \<Rightarrow> Ingress \<Rightarrow> Ingress \<times> (Error + Route list)" where
  "MakeRoutes K ci = rulesLoop K (Rules ci) ci []"

section \<open>Defaulting of the installation spec\<close>

text \<open>
  The reconciler extension of the package \<open>serving\<close> is not among the sources; only its
  tests \<open>TestReconcile\<close> and \<open>TestMonitoring\<close> are. The two functions below follow the
  specification, sections 4.4 and 4.5.
\<close>

subsection \<open>The ingress backends\<close>

datatype Exposure = ClusterIP | LoadBalancer

record BackendConfig =
  Enabled :: bool
  ServiceType :: "Exposure option"

record IngressConfigs =
  Kourier :: BackendConfig
  Istio :: BackendConfig
  Contour :: BackendConfig

definition disabledBackend :: BackendConfig where
  "disabledBackend = \<lparr> Enabled = False, ServiceType = None \<rparr>"

definition emptyIngressConfigs :: IngressConfigs where
  "emptyIngressConfigs =
     \<lparr> Kourier = disabledBackend, Istio = disabledBackend, Contour = disabledBackend \<rparr>"

definition enabledCount :: "IngressConfigs \<Rightarrow> nat" where
  "enabledCount cfg = length (filter Enabled [Kourier cfg, Istio cfg, Contour cfg])"

definition normalizeExposure :: "BackendConfig \<Rightarrow> BackendConfig" where
  "normalizeExposure b =
     (if Enabled b \<and> ServiceType b = None then b\<lparr> ServiceType := Some ClusterIP \<rparr> else b)"

text \<open>
  Modelled from the spec: the ingress resolver of the reconciler extension
  (\<open>Reconcile\<close> in the package \<open>serving\<close>), which is missing from the sources. The
  enabled candidates are counted. With none enabled, which includes an absent block,
  the result is the reference backend, enabled, with cluster-internal exposure. With
  one enabled, its exposure is set to cluster-internal if unset and an explicit one is
  kept. Several enabled candidates are not validated: each is kept, normalised alike.
\<close>

definition resolveIngress :: "IngressConfigs option \<Rightarrow> IngressConfigs" where
  "resolveIngress blk =
     (let cfg = (case blk of None \<Rightarrow> emptyIngressConfigs | Some c \<Rightarrow> c) in
      if enabledCount cfg = 0
      then cfg\<lparr> Kourier := \<lparr> Enabled = True, ServiceType = Some ClusterIP \<rparr> \<rparr>
      else cfg\<lparr> Kourier := normalizeExposure (Kourier cfg),
                Istio := normalizeExposure (Istio cfg),
                Contour := normalizeExposure (Contour cfg) \<rparr>)"

subsection \<open>Monitoring\<close>

text \<open>
  Modelled from the spec: the monitoring policy of the package \<open>monitoring\<close>, which is
  missing from the sources. Its inputs are the observability-backend key of the
  configuration, absent or set, and the environment toggle, unset, true or false; its
  results are the enablement label for the namespace and the backend key as the
  resolved spec holds it. An explicit backend is left untouched and decides the label;
  otherwise a set toggle decides it, and a false toggle also writes the backend
  \<open>none\<close>; otherwise monitoring is enabled and the backend stays unset.
\<close>

definition monitoringPolicy :: "string option \<Rightarrow> bool option \<Rightarrow> string \<times> string option" where
  "monitoringPolicy backend toggle =
     (case backend of
        Some b \<Rightarrow> (if b = ''none'' then ''false'' else ''true'', Some b)
      | None \<Rightarrow>
          (case toggle of
             Some t \<Rightarrow> (if t then (''true'', None) else (''false'', Some ''none''))
           | None \<Rightarrow> (''true'', None)))"

text \<open>
  The table of \<open>TestMonitoring\<close>: the toggle, the backend of the input, whether the
  test expects monitoring enabled, and the backend of the expected spec.
\<close>

definition TestMonitoring_cases ::
  "(bool option \<times> string option \<times> bool \<times> string option) list" where
  "TestMonitoring_cases =
     [(None, None, True, None),
      (None, Some ''prometheus'', True, Some ''prometheus''),
      (None, Some ''none'', False, Some ''none''),
      (Some True, None, True, None),
      (Some True, Some ''prometheus'', True, Some ''prometheus''),
      (Some True, Some ''none'', False, Some ''none''),
      (Some False, None, False, Some ''none''),
      (Some False, Some ''prometheus'', True, Some ''prometheus''),
      (Some False, Some ''none'', False, Some ''none'')]"

text \<open>\<open>strconv.FormatBool\<close>, with which the test compares the label.\<close>

definition FormatBool :: "bool \<Rightarrow> string" where
  "FormatBool b = (if b then ''true'' else ''false'')"

text \<open>
  The case \<open>fix 'wrong' ingress config\<close> of \<open>TestReconcile\<close>: all three backends
  disabled, and the block the test expects.
\<close>

definition wrongIngressConfig :: IngressConfigs where
  "wrongIngressConfig =
     \<lparr> Kourier = \<lparr> Enabled = False, ServiceType = None \<rparr>,
       Istio = \<lparr> Enabled = False, ServiceType = None \<rparr>,
       Contour = \<lparr> Enabled = False, ServiceType = None \<rparr> \<rparr>"

definition fixedIngressConfig :: IngressConfigs where
  "fixedIngressConfig =
     \<lparr> Kourier = \<lparr> Enabled = True, ServiceType = Some ClusterIP \<rparr>,
       Istio = \<lparr> Enabled = False, ServiceType = None \<rparr>,
       Contour = \<lparr> Enabled = False, ServiceType = None \<rparr> \<rparr>"

section \<open>Notions used in the statements\<close>

text \<open>
  The ingress carries the disable-route annotation; the ingress as a call of
  \<open>makeRoute\<close> that passes both early returns leaves it.
\<close>

definition disabled :: "Ingress \<Rightarrow> bool" where
  "disabled ci = (case Annotations ci of None \<Rightarrow> False | Some m \<Rightarrow> m DisableRouteAnnotation \<noteq> None)"

definition touch :: "deps \<Rightarrow> Ingress \<Rightarrow> Ingress" where
  "touch K ci = (case Annotations ci of None \<Rightarrow> ci
                 | Some m \<Rightarrow> ci\<lparr>Annotations := Some (m(TimeoutAnnotation \<mapsto> DefaultTimeout K))\<rparr>)"

text \<open>The inverse of \<open>Split\<close>: the pieces with the separator between them.\<close>

fun Join :: "string list \<Rightarrow> char \<Rightarrow> string" where
  "Join [] c = []"
| "Join [p] c = p"
| "Join (p # q # ps) c = p @ c # Join (q # ps) c"

text \<open>
  An internal domain of the shape \<open>service.namespace.svc...\<close>: more than two labels,
  the third one \<open>svc\<close>; and the pair of its first two labels.
\<close>

definition validDomain :: "string \<Rightarrow> bool" where
  "validDomain d = (length (Split d CHR ''.'') > 2 \<and> Split d CHR ''.'' ! 2 = ''svc'')"

definition serviceOf :: "string \<Rightarrow> string \<times> string" where
  "serviceOf d = (Split d CHR ''.'' ! 0, Split d CHR ''.'' ! 1)"

text \<open>The routable hosts of the rules that are not cluster-local, in order.\<close>

definition routedHosts :: "Ingress \<Rightarrow> string list" where
  "routedHosts ci =
     concat (map (\<lambda>rule. if Visibility rule = IngressVisibilityClusterLocal then []
                         else filter routableHost (Hosts rule)) (Rules ci))"

text \<open>
  The ingress asks for passthrough: by the annotation or by a TLS secret reference. The
  value of the legacy HTTP-option annotation as the ingress carries it.
\<close>

definition hasPassthrough :: "Ingress \<Rightarrow> bool" where
  "hasPassthrough ci =
     ((case Annotations ci of None \<Rightarrow> False
       | Some m \<Rightarrow> m EnablePassthroughRouteAnnotation \<noteq> None) \<or> TLS ci \<noteq> [])"

definition httpOptionAnnotation :: "deps \<Rightarrow> Ingress \<Rightarrow> string" where
  "httpOptionAnnotation K ci =
     (case Annotations ci of None \<Rightarrow> [] | Some m \<Rightarrow> lookupStr m (HTTPOptionAnnotationKey K))"

section \<open>Example inputs\<close>

text \<open>
  The dependencies at the versions the operator is built with. The examples below are
  ASCII and hold no percent sign, so the Unicode branch of \<open>strings.ToLower\<close> and
  the verbs of \<open>fmt\<close> are never entered and are left unspecified.
\<close>

definition knativeDeps :: deps where
  "knativeDeps = \<lparr> HTTPOptionAnnotationKey = ''networking.knative.dev/httpOption'',
                    IngressLabelKey = ''networking.internal.knative.dev/ingress'',
                    DefaultMaxRevisionTimeoutSeconds = 600,
                    unicodeToLower = undefined,
                    fmtNoOperands = undefined \<rparr>"

definition externalRule :: "string list \<Rightarrow> IngressRule" where
  "externalRule hs = \<lparr> Hosts = hs, Visibility = IngressVisibilityExternalIP \<rparr>"

definition kourierLb :: LoadBalancerIngressStatus where
  "kourierLb = \<lparr> DomainInternal = ''kourier.knative-serving-ingress.svc.cluster.local'' \<rparr>"

definition istioLb :: LoadBalancerIngressStatus where
  "istioLb = \<lparr> DomainInternal = ''istio-ingressgateway.istio-system.svc.cluster.local'' \<rparr>"

text \<open>The scenario of the specification: one external rule, one host, one load balancer.\<close>

definition scenarioIngress :: Ingress where
  "scenarioIngress =
     \<lparr> Name = ''ing'', Namespace = ''default'', UID = ''abc'', Labels = Map.empty,
       Annotations = None,
       Rules = [externalRule [''foo.default.example.com'']],
       TLS = [], HTTPOption = HTTPOptionRedirected,
       PublicLoadBalancer = Some [kourierLb] \<rparr>"

text \<open>Two load-balancer entries, both with a well-formed internal domain.\<close>

definition twoLbIngress :: Ingress where
  "twoLbIngress = scenarioIngress \<lparr> PublicLoadBalancer := Some [kourierLb, istioLb] \<rparr>"

text \<open>No usable load-balancer entry; a cluster-internal host before a routable one.\<close>

definition noLbIngress :: Ingress where
  "noLbIngress = scenarioIngress
     \<lparr> Rules := [externalRule [''foo.default.svc.cluster.local'', ''foo.default.example.com'']],
       PublicLoadBalancer := Some [\<lparr> DomainInternal = [] \<rparr>] \<rparr>"

text \<open>Hosts of every shape under an external rule, and a cluster-local rule.\<close>

definition mixedIngress :: Ingress where
  "mixedIngress = scenarioIngress
     \<lparr> Rules := [externalRule [''foo.default.example.com'', ''foo.default.svc.cluster.local'',
                                ''foo.default'', ''localhost'', ''foo.default.svc''],
                  \<lparr> Hosts = [''bar.example.com''], Visibility = IngressVisibilityClusterLocal \<rparr>] \<rparr>"

text \<open>Nothing to route, and no usable load-balancer entry either.\<close>

definition internalOnlyIngress :: Ingress where
  "internalOnlyIngress = noLbIngress
     \<lparr> Rules := [externalRule [''foo.default.svc.cluster.local''],
                  \<lparr> Hosts = [''bar.example.com''], Visibility = IngressVisibilityClusterLocal \<rparr>] \<rparr>"

text \<open>An ingress with the disable-route annotation and no load-balancer status.\<close>

definition disabledIngress :: Ingress where
  "disabledIngress =
     \<lparr> Name = ''ing'', Namespace = ''default'', UID = ''abc'', Labels = Map.empty,
       Annotations = Some (Map.empty(DisableRouteAnnotation \<mapsto> [])),
       Rules = [externalRule [''foo.example.com'']],
       TLS = [], HTTPOption = HTTPOptionEnabled, PublicLoadBalancer = None \<rparr>"

text \<open>The scenario with the legacy HTTP-option annotation set to \<open>v\<close>.\<close>

definition legacyIngress :: "string \<Rightarrow> Ingress" where
  "legacyIngress v = scenarioIngress
     \<lparr> Annotations := Some [HTTPOptionAnnotationKey knativeDeps \<mapsto> v] \<rparr>"

text \<open>The same with a TLS secret reference, and the HTTP option \<open>Enabled\<close>.\<close>

definition tlsIngress :: "string \<Rightarrow> Ingress" where
  "tlsIngress v = legacyIngress v \<lparr> TLS := [''secret''], HTTPOption := HTTPOptionEnabled \<rparr>"

text \<open>The scenario with an allocated, empty annotation map.\<close>

definition annotatedIngress :: Ingress where
  "annotatedIngress = scenarioIngress \<lparr> Annotations := Some Map.empty \<rparr>"

text \<open>An invalid legacy annotation on an ingress without a usable load balancer.\<close>

definition bogusNoLbIngress :: Ingress where
  "bogusNoLbIngress = noLbIngress
     \<lparr> Annotations := Some [HTTPOptionAnnotationKey knativeDeps \<mapsto> ''bogus''] \<rparr>"

section \<open>Evaluation of the examples\<close>

lemmas example_defs = knativeDeps_def externalRule_def kourierLb_def istioLb_def
  scenarioIngress_def twoLbIngress_def noLbIngress_def mixedIngress_def
  internalOnlyIngress_def disabledIngress_def legacyIngress_def tlsIngress_def
  annotatedIngress_def bogusNoLbIngress_def

lemmas route_defs = makeRoute_def resolveService_def lbStep_def lookupStr_def Let_def
  DisableRouteAnnotation_def TimeoutAnnotation_def EnablePassthroughRouteAnnotation_def

lemmas lower_defs = ToLower_def isASCII_def asciiLower_def char_of_def bit_0

section \<open>What a call changes and what it depends on\<close>

text \<open>
  The only write of \<open>makeRoute\<close> is the timeout annotation. A second call on the
  ingress it leaves computes the same result and changes nothing more; the same holds
  for the two loops.
\<close>

lemma keys_distinct [simp]:
  "DisableRouteAnnotation \<noteq> TimeoutAnnotation"
  "TimeoutAnnotation \<noteq> DisableRouteAnnotation"
  "EnablePassthroughRouteAnnotation \<noteq> TimeoutAnnotation"
  "TimeoutAnnotation \<noteq> EnablePassthroughRouteAnnotation"
  by (simp_all add: DisableRouteAnnotation_def TimeoutAnnotation_def EnablePassthroughRouteAnnotation_def)

lemma touch_touch [simp]: "touch K (touch K ci) = touch K ci"
  by (simp add: touch_def split: option.splits)

lemma disabled_touch [simp]: "disabled (touch K ci) = disabled ci"
  by (simp add: touch_def disabled_def split: option.splits)

lemma resolveService_touch [simp]: "resolveService (touch K ci) = resolveService ci"
  by (simp add: touch_def resolveService_def split: option.splits)

lemma makeRoute_skip:
  "Visibility rule = IngressVisibilityClusterLocal \<or> disabled ci \<Longrightarrow>
   makeRoute K ci host rule = (ci, Inr None)"
  by (auto simp add: makeRoute_def disabled_def split: option.splits)

lemma makeRoute_fst:
  "\<not> (Visibility rule = IngressVisibilityClusterLocal \<or> disabled ci) \<Longrightarrow>
   fst (makeRoute K ci host rule) = touch K ci"
  by (auto simp add: makeRoute_def disabled_def touch_def Let_def split: option.splits prod.splits)

lemma makeRoute_touch:
  "makeRoute K (touch K ci) host rule = (touch K ci, snd (makeRoute K ci host rule))"
proof (cases "Visibility rule = IngressVisibilityClusterLocal \<or> disabled ci")
  case True
  then show ?thesis by (simp add: makeRoute_skip)
next
  case False
  have "snd (makeRoute K (touch K ci) host rule) = snd (makeRoute K ci host rule)"
    using False
    by (cases "Annotations ci")
       (simp_all add: makeRoute_def touch_def disabled_def unionLabels_def resolveService_def Let_def split: prod.splits)
  moreover have "fst (makeRoute K (touch K ci) host rule) = touch K ci"
    using False makeRoute_fst [of rule "touch K ci" K host] by simp
  ultimately show ?thesis by (simp add: prod_eq_iff)
qed

lemma makeRoute_fst_cases:
  "fst (makeRoute K ci host rule) = ci \<or> fst (makeRoute K ci host rule) = touch K ci"
proof (cases "Visibility rule = IngressVisibilityClusterLocal \<or> disabled ci")
  case True
  then show ?thesis by (simp add: makeRoute_skip)
next
  case False
  then show ?thesis by (simp add: makeRoute_fst)
qed

lemma hostsLoop_touch:
  "hostsLoop K rule hosts (touch K ci) routes =
     (touch K ci, snd (hostsLoop K rule hosts ci routes))"
proof (induction hosts arbitrary: ci routes)
  case Nil
  show ?case by simp
next
  case (Cons host hosts)
  show ?case
  proof (cases "routableHost host")
    case False
    then show ?thesis using Cons.IH by simp
  next
    case True
    obtain c1 r where mr: "makeRoute K ci host rule = (c1, r)" by (cases "makeRoute K ci host rule")
    have c1: "c1 = ci \<or> c1 = touch K ci" using makeRoute_fst_cases [of K ci host rule] mr by simp
    have mt: "makeRoute K (touch K ci) host rule = (touch K ci, r)" using makeRoute_touch [of K ci host rule] mr by simp
    have step: "\<And>rs. hostsLoop K rule hosts c1 rs = (c1, snd (hostsLoop K rule hosts ci rs)) \<or> c1 = ci"
      using c1 Cons.IH by auto
    have snd_eq: "\<And>rs. snd (hostsLoop K rule hosts c1 rs) = snd (hostsLoop K rule hosts ci rs)"
      using step by (metis snd_conv)
    show ?thesis
      using True mr mt Cons.IH snd_eq
      by (simp split: sum.splits option.splits)
  qed
qed

lemma hostsLoop_fst_cases:
  "fst (hostsLoop K rule hosts ci routes) = ci \<or> fst (hostsLoop K rule hosts ci routes) = touch K ci"
proof (induction hosts arbitrary: ci routes)
  case Nil
  show ?case by simp
next
  case (Cons host hosts)
  show ?case
  proof (cases "routableHost host")
    case False
    then show ?thesis using Cons.IH by simp
  next
    case True
    obtain c1 r where mr: "makeRoute K ci host rule = (c1, r)" by (cases "makeRoute K ci host rule")
    have c1: "c1 = ci \<or> c1 = touch K ci" using makeRoute_fst_cases [of K ci host rule] mr by simp
    have "\<And>rs. fst (hostsLoop K rule hosts c1 rs) = ci \<or> fst (hostsLoop K rule hosts c1 rs) = touch K ci"
      using c1 Cons.IH [of c1] by (auto simp: hostsLoop_touch)
    then show ?thesis using True mr
      by (simp split: sum.splits option.splits add: c1)
  qed
qed

lemma rulesLoop_touch:
  "rulesLoop K rules (touch K ci) routes =
     (touch K ci, snd (rulesLoop K rules ci routes))"
proof (induction rules arbitrary: ci routes)
  case Nil
  show ?case by simp
next
  case (Cons rule rules)
  show ?case
  proof (cases "Visibility rule = IngressVisibilityClusterLocal")
    case True
    then show ?thesis using Cons.IH by simp
  next
    case False
    obtain c1 r where hl: "hostsLoop K rule (Hosts rule) ci routes = (c1, r)"
      by (cases "hostsLoop K rule (Hosts rule) ci routes")
    have c1: "c1 = ci \<or> c1 = touch K ci" using hostsLoop_fst_cases [of K rule "Hosts rule" ci routes] hl by simp
    have ht: "hostsLoop K rule (Hosts rule) (touch K ci) routes = (touch K ci, r)"
      using hostsLoop_touch [of K rule "Hosts rule" ci routes] hl by simp
    have snd_eq: "\<And>rs. snd (rulesLoop K rules c1 rs) = snd (rulesLoop K rules ci rs)"
      using c1 Cons.IH by (metis snd_conv)
    show ?thesis using False hl ht Cons.IH snd_eq
      by (simp split: sum.splits)
  qed
qed

lemma rulesLoop_fst_cases:
  "fst (rulesLoop K rules ci routes) = ci \<or> fst (rulesLoop K rules ci routes) = touch K ci"
proof (induction rules arbitrary: ci routes)
  case Nil
  show ?case by simp
next
  case (Cons rule rules)
  show ?case
  proof (cases "Visibility rule = IngressVisibilityClusterLocal")
    case True
    then show ?thesis using Cons.IH by simp
  next
    case False
    obtain c1 r where hl: "hostsLoop K rule (Hosts rule) ci routes = (c1, r)"
      by (cases "hostsLoop K rule (Hosts rule) ci routes")
    have c1: "c1 = ci \<or> c1 = touch K ci" using hostsLoop_fst_cases [of K rule "Hosts rule" ci routes] hl by simp
    have "\<And>rs. fst (rulesLoop K rules c1 rs) = ci \<or> fst (rulesLoop K rules c1 rs) = touch K ci"
      using c1 Cons.IH [of c1] by (auto simp: rulesLoop_touch)
    then show ?thesis using False hl
      by (simp split: sum.splits add: c1)
  qed
qed

lemma MakeRoutes_repeat:
  "snd (MakeRoutes K (fst (MakeRoutes K ci))) = snd (MakeRoutes K ci)"
proof -
  have r: "Rules (touch K ci) = Rules ci" by (simp add: touch_def split: option.splits)
  from rulesLoop_fst_cases [of K "Rules ci" ci "[]"]
  show ?thesis
    by (auto simp: MakeRoutes_def r rulesLoop_touch)
qed

section \<open>Errors\<close>

text \<open>
  Whether \<open>makeRoute\<close> fails, and with which error, depends on the ingress alone, not
  on the host or on the rule (as long as the rule is not cluster-local).
\<close>

lemma makeRoute_err_indep:
  assumes "Visibility rule \<noteq> IngressVisibilityClusterLocal"
    and "Visibility rule' \<noteq> IngressVisibilityClusterLocal"
  shows "(snd (makeRoute K ci host rule) = Inl err) = (snd (makeRoute K ci host' rule') = Inl err)"
  using assms
  by (simp add: makeRoute_def Let_def split: prod.splits)

lemma makeRoute_CL_not_err:
  "Visibility rule = IngressVisibilityClusterLocal \<Longrightarrow> snd (makeRoute K ci host rule) \<noteq> Inl err"
  by (simp add: makeRoute_def)

lemma makeRoute_err_fst:
  "(snd (makeRoute K (fst (makeRoute K ci h r)) host rule) = Inl err) = (snd (makeRoute K ci host rule) = Inl err)"
  using makeRoute_fst_cases [of K ci h r] by (auto simp: makeRoute_touch)

lemma hostsLoop_err:
  assumes "Visibility rule \<noteq> IngressVisibilityClusterLocal"
  shows "(snd (hostsLoop K rule hosts ci routes) = Inl err) =
         (\<exists>h\<in>set hosts. routableHost h \<and> snd (makeRoute K ci h rule) = Inl err)"
proof (induction hosts arbitrary: ci routes)
  case Nil
  show ?case by simp
next
  case (Cons host hosts)
  show ?case
  proof (cases "routableHost host")
    case False
    then show ?thesis using Cons.IH by auto
  next
    case True
    obtain c1 r where mr: "makeRoute K ci host rule = (c1, r)" by (cases "makeRoute K ci host rule")
    have c1: "c1 = fst (makeRoute K ci host rule)" using mr by simp
    have indep: "\<And>h. (snd (makeRoute K ci h rule) = Inl err) = (r = Inl err)"
      using makeRoute_err_indep [OF assms assms, of K ci _ err host] mr by simp
    have indep1: "\<And>h. (snd (makeRoute K c1 h rule) = Inl err) = (r = Inl err)"
      unfolding c1 makeRoute_err_fst using indep .
    show ?thesis
    proof (cases r)
      case (Inl e)
      then show ?thesis using True mr indep by auto
    next
      case (Inr x)
      then have "r \<noteq> Inl err" by simp
      then show ?thesis using True mr Inr indep indep1 Cons.IH [of c1]
        by (cases x) auto
    qed
  qed
qed

lemma hostsLoop_err_fst:
  "(snd (makeRoute K (fst (hostsLoop K r hs ci rs)) host rule) = Inl err) = (snd (makeRoute K ci host rule) = Inl err)"
  using hostsLoop_fst_cases [of K r hs ci rs] by (auto simp: makeRoute_touch)

lemma rulesLoop_err:
  "(snd (rulesLoop K rules ci routes) = Inl err) =
   (\<exists>rule\<in>set rules. Visibility rule \<noteq> IngressVisibilityClusterLocal \<and>
      (\<exists>host\<in>set (Hosts rule). routableHost host \<and> snd (makeRoute K ci host rule) = Inl err))"
proof (induction rules arbitrary: ci routes)
  case Nil
  show ?case by simp
next
  case (Cons rule rules)
  show ?case
  proof (cases "Visibility rule = IngressVisibilityClusterLocal")
    case True
    then show ?thesis using Cons.IH by simp
  next
    case False
    obtain c1 r where hl: "hostsLoop K rule (Hosts rule) ci routes = (c1, r)"
      by (cases "hostsLoop K rule (Hosts rule) ci routes")
    have c1: "c1 = fst (hostsLoop K rule (Hosts rule) ci routes)" using hl by simp
    have here: "(r = Inl err) = (\<exists>h\<in>set (Hosts rule). routableHost h \<and> snd (makeRoute K ci h rule) = Inl err)"
      using hostsLoop_err [OF False, of K "Hosts rule" ci routes err] hl by simp
    show ?thesis
    proof (cases r)
      case (Inl e)
      have "e \<noteq> err \<Longrightarrow> \<not> (\<exists>rule'\<in>set rules. Visibility rule' \<noteq> IngressVisibilityClusterLocal \<and>
          (\<exists>host\<in>set (Hosts rule'). routableHost host \<and> snd (makeRoute K ci host rule') = Inl err))"
      proof
        assume ne: "e \<noteq> err"
        assume "\<exists>rule'\<in>set rules. Visibility rule' \<noteq> IngressVisibilityClusterLocal \<and>
          (\<exists>host\<in>set (Hosts rule'). routableHost host \<and> snd (makeRoute K ci host rule') = Inl err)"
        then obtain rule' host' where v: "Visibility rule' \<noteq> IngressVisibilityClusterLocal"
          and e': "snd (makeRoute K ci host' rule') = Inl err" by blast
        from hostsLoop_err [OF False, of K "Hosts rule" ci routes e] hl Inl
        obtain h where "snd (makeRoute K ci h rule) = Inl e" by auto
        then have "snd (makeRoute K ci host' rule') = Inl e"
          using makeRoute_err_indep [OF False v, of K ci h e host'] by simp
        with e' ne show False by simp
      qed
      then show ?thesis using False hl Inl here by auto
    next
      case (Inr rs)
      have "\<And>host rule'. (snd (makeRoute K c1 host rule') = Inl err) = (snd (makeRoute K ci host rule') = Inl err)"
        unfolding c1 by (rule hostsLoop_err_fst)
      then show ?thesis using False hl Inr here Cons.IH [of c1 rs] by auto
    qed
  qed
qed

text \<open>
  C4. \<open>MakeRoutes\<close> is all-or-nothing. It returns the error \<open>err\<close> (and with it no
  route list: the result is \<open>Inl err\<close>) exactly when \<open>makeRoute\<close> fails with \<open>err\<close>
  on some routable host of some rule that is not cluster-local; the routes built for
  earlier hosts are dropped. When \<open>makeRoute\<close> fails on none of them, the result is
  a route list and no error.
\<close>

theorem MakeRoutes_all_or_nothing:
  "((snd (MakeRoutes K ci) = Inl err) =
    (\<exists>rule\<in>set (Rules ci). Visibility rule \<noteq> IngressVisibilityClusterLocal \<and>
       (\<exists>host\<in>set (Hosts rule). routableHost host \<and> snd (makeRoute K ci host rule) = Inl err)))
   \<and> ((\<forall>rule\<in>set (Rules ci). \<forall>host\<in>set (Hosts rule).
          Visibility rule \<noteq> IngressVisibilityClusterLocal \<and> routableHost host \<longrightarrow>
          \<not> isl (snd (makeRoute K ci host rule)))
        \<longrightarrow> (\<exists>routes. snd (MakeRoutes K ci) = Inr routes))"
proof (intro conjI impI)
  show "(snd (MakeRoutes K ci) = Inl err) =
    (\<exists>rule\<in>set (Rules ci). Visibility rule \<noteq> IngressVisibilityClusterLocal \<and>
       (\<exists>host\<in>set (Hosts rule). routableHost host \<and> snd (makeRoute K ci host rule) = Inl err))"
    by (simp add: MakeRoutes_def rulesLoop_err)
next
  assume ok: "\<forall>rule\<in>set (Rules ci). \<forall>host\<in>set (Hosts rule).
          Visibility rule \<noteq> IngressVisibilityClusterLocal \<and> routableHost host \<longrightarrow>
          \<not> isl (snd (makeRoute K ci host rule))"
  show "\<exists>routes. snd (MakeRoutes K ci) = Inr routes"
  proof (cases "snd (MakeRoutes K ci)")
    case (Inl e)
    then obtain rule host where "rule \<in> set (Rules ci)" "host \<in> set (Hosts rule)"
      "Visibility rule \<noteq> IngressVisibilityClusterLocal" "routableHost host"
      "snd (makeRoute K ci host rule) = Inl e"
      by (auto simp: MakeRoutes_def rulesLoop_err)
    with ok show ?thesis by force
  next
    case (Inr routes)
    then show ?thesis by simp
  qed
qed

lemma routable_example: "routableHost ''foo.default.example.com''"
  by (simp add: routableHost_def)

lemma internal_example: "\<not> routableHost ''foo.default.svc.cluster.local''"
  by (simp add: routableHost_def)

lemma noLbIngress_makeRoute:
  "snd (makeRoute knativeDeps noLbIngress ''foo.default.example.com''
         (externalRule [''foo.default.svc.cluster.local'', ''foo.default.example.com'']))
     = Inl ErrNoValidLoadbalancerDomain"
  by (simp add: example_defs route_defs)

lemma scenarioIngress_makeRoute:
  "snd (makeRoute knativeDeps scenarioIngress ''foo.default.example.com''
         (externalRule [''foo.default.example.com'']))
     = Inr (Some \<lparr> routeName_of = routeName ''abc'' ''foo.default.example.com'',
            routeNamespace = ''knative-serving-ingress'',
            routeLabels = unionLabels knativeDeps scenarioIngress,
            routeAnnotations = [TimeoutAnnotation \<mapsto> ''600s''],
            routeHost = ''foo.default.example.com'', TargetPort = HTTPPort,
            ToKind = ''Service'', ToName = ''kourier'', ToWeight = 100,
            Termination = TLSTerminationEdge,
            InsecurePolicy = InsecureEdgeTerminationPolicyRedirect,
            Wildcard = WildcardPolicyNone \<rparr>)"
  by (simp add: example_defs route_defs DefaultTimeout_def showNat.simps digitChar_def)

text \<open>
  At \<open>noLbIngress\<close> the second host fails, and so does the call; at
  \<open>scenarioIngress\<close> the one host succeeds, and the call returns a list.
\<close>

theorem MakeRoutes_all_or_nothing_witness:
  "snd (MakeRoutes knativeDeps noLbIngress) = Inl ErrNoValidLoadbalancerDomain
   \<and> \<not> isl (snd (MakeRoutes knativeDeps scenarioIngress))"
proof -
  have r: "Rules noLbIngress =
      [externalRule [''foo.default.svc.cluster.local'', ''foo.default.example.com'']]"
    by (simp add: noLbIngress_def scenarioIngress_def)
  have "\<exists>rule\<in>set (Rules noLbIngress). Visibility rule \<noteq> IngressVisibilityClusterLocal \<and>
       (\<exists>host\<in>set (Hosts rule). routableHost host \<and>
          snd (makeRoute knativeDeps noLbIngress host rule) = Inl ErrNoValidLoadbalancerDomain)"
    unfolding r using noLbIngress_makeRoute routable_example
    by (simp add: externalRule_def)
  then have a: "snd (MakeRoutes knativeDeps noLbIngress) = Inl ErrNoValidLoadbalancerDomain"
    using MakeRoutes_all_or_nothing [of knativeDeps noLbIngress ErrNoValidLoadbalancerDomain]
    by blast
  have s: "Rules scenarioIngress = [externalRule [''foo.default.example.com'']]"
    by (simp add: scenarioIngress_def)
  have "\<forall>rule\<in>set (Rules scenarioIngress). \<forall>host\<in>set (Hosts rule).
          Visibility rule \<noteq> IngressVisibilityClusterLocal \<and> routableHost host \<longrightarrow>
          \<not> isl (snd (makeRoute knativeDeps scenarioIngress host rule))"
    unfolding s using scenarioIngress_makeRoute by (simp add: externalRule_def)
  then have "\<exists>routes. snd (MakeRoutes knativeDeps scenarioIngress) = Inr routes"
    using MakeRoutes_all_or_nothing [of knativeDeps scenarioIngress ErrNoValidLoadbalancerDomain]
    by blast
  then have b: "\<not> isl (snd (MakeRoutes knativeDeps scenarioIngress))"
    by auto
  show ?thesis using a b by simp
qed

section \<open>Route names\<close>

text \<open>
  The digest has 32 bytes, so its first six hexadecimal characters are those of its first
  three bytes. Both hexadecimal encodings double the length and are injective.
\<close>

lemma length_roundOut [simp]: "length (roundOut s t1 t2) = 8"
  by (simp add: roundOut_def)

lemma length_round256 [simp]: "length (round256 s kw) = 8"
  by (simp add: round256_def)

lemma length_foldl_round256:
  "length s = 8 \<Longrightarrow> length (foldl round256 s kws) = 8"
  by (induction kws arbitrary: s) simp_all

lemma length_compress [simp]: "length hs = 8 \<Longrightarrow> length (compress hs blk) = 8"
  by (simp add: compress_def length_foldl_round256)

lemma length_foldl_compress:
  "length hs = 8 \<Longrightarrow> length (foldl compress hs blks) = 8"
  by (induction blks arbitrary: hs) simp_all

lemma length_concat_u32_bytes: "length (concat (map u32_bytes ws)) = 4 * length ws"
  by (induction ws) (simp_all add: u32_bytes_def)

lemma length_Sum256: "length (Sum256 m) = 32"
  by (simp add: Sum256_def length_concat_u32_bytes length_foldl_compress H0_def)

lemma hexBytes_simps [simp]:
  "hexBytes [] = []" "hexBytes (b # bs) = hexByte (unat b) @ hexBytes bs"
  by (simp_all add: hexBytes_def)

lemma hexString_simps [simp]:
  "hexString [] = []" "hexString (c # cs) = hexByte (of_char c) @ hexString cs"
  by (simp_all add: hexString_def)

lemma length_hexByte [simp]: "length (hexByte b) = 2"
  by (simp add: hexByte_def)

lemma length_hexBytes: "length (hexBytes bs) = 2 * length bs"
  by (induction bs) simp_all

lemma length_hexString: "length (hexString s) = 2 * length s"
  by (induction s) simp_all

lemma take_hexBytes: "take (2 * n) (hexBytes bs) = hexBytes (take n bs)"
proof (induction bs arbitrary: n)
  case Nil
  show ?case by simp
next
  case (Cons b bs)
  show ?case
  proof (cases n)
    case 0
    then show ?thesis by simp
  next
    case (Suc k)
    then show ?thesis using Cons.IH [of k] by simp
  qed
qed

lemma hashHost_take3: "hashHost host = hexBytes (take 3 (Sum256 (bytesOf host)))"
  using take_hexBytes [of 3 "Sum256 (bytesOf host)"] by (simp add: hashHost_def)

lemma length_hashHost: "length (hashHost host) = 6"
  by (simp add: hashHost_take3 length_hexBytes length_Sum256)

lemma digitChar_inj:
  "a < 16 \<Longrightarrow> b < 16 \<Longrightarrow> digitChar a = digitChar b \<Longrightarrow> a = b"
proof -
  have d: "distinct ''0123456789abcdef''" by simp
  assume "a < 16" "b < 16" "digitChar a = digitChar b"
  then show "a = b"
    using d nth_eq_iff_index_eq [of "''0123456789abcdef''" a b]
    by (simp add: digitChar_def)
qed

lemma hexByte_inj:
  assumes "a < 256" and "b < 256" and "hexByte a = hexByte b"
  shows "a = b"
proof -
  have "a div 16 < 16" "b div 16 < 16" "a mod 16 < 16" "b mod 16 < 16"
    using assms by simp_all
  moreover have "digitChar (a div 16) = digitChar (b div 16)" "digitChar (a mod 16) = digitChar (b mod 16)"
    using assms(3) by (simp_all add: hexByte_def)
  ultimately have "a div 16 = b div 16" "a mod 16 = b mod 16"
    using digitChar_inj by blast+
  then show ?thesis by (metis div_mult_mod_eq)
qed

lemma hexBytes_inj: "hexBytes xs = hexBytes ys \<Longrightarrow> xs = ys"
proof (induction xs arbitrary: ys)
  case Nil
  then have "length (hexBytes ys) = 0" by simp
  then show ?case by (simp add: length_hexBytes)
next
  case (Cons x xs)
  have "length (hexBytes ys) = length (hexBytes (x # xs))" using Cons.prems by simp
  then obtain y ys' where ys: "ys = y # ys'"
    by (cases ys) (simp_all add: length_hexBytes)
  have "hexByte (unat x) @ hexBytes xs = hexByte (unat y) @ hexBytes ys'"
    using Cons.prems ys by simp
  then have h: "hexByte (unat x) = hexByte (unat y)" and t: "hexBytes xs = hexBytes ys'"
    by simp_all
  have "unat x < 256" "unat y < 256"
    using unsigned_less [of x] unsigned_less [of y] by simp_all
  then have "unat x = unat y" using h hexByte_inj by blast
  then have "x = y" by (simp add: word_unat_eq_iff)
  then show ?case using Cons.IH [OF t] ys by simp
qed

lemma hexString_inj: "hexString xs = hexString ys \<Longrightarrow> xs = ys"
proof (induction xs arbitrary: ys)
  case Nil
  then have "length (hexString ys) = 0" by simp
  then show ?case by (simp add: length_hexString)
next
  case (Cons x xs)
  have "length (hexString ys) = length (hexString (x # xs))" using Cons.prems by simp
  then obtain y ys' where ys: "ys = y # ys'"
    by (cases ys) (simp_all add: length_hexString)
  have "hexByte (of_char x) @ hexString xs = hexByte (of_char y) @ hexString ys'"
    using Cons.prems ys by simp
  then have h: "hexByte (of_char x) = hexByte (of_char y)" and t: "hexString xs = hexString ys'"
    by simp_all
  have "(of_char x :: nat) < 256" "(of_char y :: nat) < 256"
    by simp_all
  then have "(of_char x :: nat) = of_char y" using h hexByte_inj by blast
  then show ?case using Cons.IH [OF t] ys by simp
qed

lemma card_three_bytes: "card {bs :: byte list. length bs = 3} = 2 ^ 24"
proof -
  have "card {bs :: byte list. set bs \<subseteq> UNIV \<and> length bs = 3} = card (UNIV :: byte set) ^ 3"
    by (rule card_lists_length_eq) simp
  then show ?thesis by (simp add: card_word)
qed

lemma makeRoute_name:
  "snd (makeRoute K ci host rule) = Inr (Some r) \<Longrightarrow> routeName_of r = routeName (UID ci) host"
  by (auto simp: makeRoute_def Let_def split: if_splits prod.splits)

text \<open>
  C2, as the code has it. The name of an emitted route, which is \<open>routeName\<close> of
  the unique identifier and the host, is \<open>route-\<close>, the unique identifier, a dash and a
  suffix of twelve characters: \<open>hashHost\<close> returns the first six hexadecimal
  characters of the digest as a string, and \<open>routeName\<close> formats that string with
  \<open>%x\<close> once more, which prints two hexadecimal digits for each of its six bytes.
  The name is a function of the identifier and the host; for one identifier, two hosts
  get the same name exactly when the first three bytes of their digests agree; and the
  suffixes range over a set of \<open>2 ^ 24\<close> strings.
\<close>

theorem routeName_shape:
  "(snd (makeRoute K ci host rule) = Inr (Some r) \<longrightarrow>
      routeName_of r =
        ''route-'' @ UID ci @ ''-'' @ hexString (hexBytes (take 3 (Sum256 (bytesOf host)))))
   \<and> routeName uid host =
       ''route-'' @ uid @ ''-'' @ hexString (hexBytes (take 3 (Sum256 (bytesOf host))))
   \<and> length (hexString (hashHost host)) = 12
   \<and> length (routeName uid host) = length uid + 19
   \<and> (routeName uid host = routeName uid host') =
       (take 3 (Sum256 (bytesOf host)) = take 3 (Sum256 (bytesOf host')))
   \<and> hexString (hashHost host) \<in> (\<lambda>bs. hexString (hexBytes bs)) ` {bs. length bs = 3}
   \<and> card ((\<lambda>bs. hexString (hexBytes bs)) ` {bs :: byte list. length bs = 3}) = 2 ^ 24"
proof (intro conjI impI)
  assume "snd (makeRoute K ci host rule) = Inr (Some r)"
  then show "routeName_of r =
        ''route-'' @ UID ci @ ''-'' @ hexString (hexBytes (take 3 (Sum256 (bytesOf host))))"
    using makeRoute_name [of K ci host rule r] by (simp add: routeName_def hashHost_take3)
next
  show "routeName uid host =
     ''route-'' @ uid @ ''-'' @ hexString (hexBytes (take 3 (Sum256 (bytesOf host))))"
    by (simp add: routeName_def hashHost_take3)
next
  show "length (hexString (hashHost host)) = 12"
    by (simp add: length_hexString length_hashHost)
next
  show "length (routeName uid host) = length uid + 19"
    by (simp add: routeName_def length_hexString length_hashHost)
next
  show "(routeName uid host = routeName uid host') =
       (take 3 (Sum256 (bytesOf host)) = take 3 (Sum256 (bytesOf host')))"
    using hexString_inj hexBytes_inj by (auto simp: routeName_def hashHost_take3)
next
  show "hexString (hashHost host) \<in> (\<lambda>bs. hexString (hexBytes bs)) ` {bs. length bs = 3}"
    by (rule image_eqI [of _ _ "take 3 (Sum256 (bytesOf host))"])
       (simp_all add: hashHost_take3 length_Sum256)
next
  have "inj_on (\<lambda>bs. hexString (hexBytes bs)) {bs :: byte list. length bs = 3}"
    using hexString_inj hexBytes_inj by (auto intro!: inj_onI)
  then show "card ((\<lambda>bs. hexString (hexBytes bs)) ` {bs :: byte list. length bs = 3}) = 2 ^ 24"
    by (simp add: card_image card_three_bytes)
qed

text \<open>
  The digest of the host of the scenario begins with the bytes \<open>b4\<close>, \<open>92\<close> and
  \<open>4e\<close>, as \<open>sha256sum\<close> prints them.
\<close>

lemma scenario_hashHost: "hashHost ''foo.default.example.com'' = ''b4924e''"
  by code_simp

lemma hexString_b4924e: "hexString ''b4924e'' = ''623439323465''"
  by code_simp

lemma scenario_routeName:
  "routeName ''abc'' ''foo.default.example.com'' = ''route-abc-623439323465''"
  unfolding routeName_def scenario_hashHost hexString_b4924e by simp

text \<open>The route of the scenario has the name with the suffix of twelve characters.\<close>

theorem routeName_shape_witness:
  "map_sum id (map_option routeName_of)
     (snd (makeRoute knativeDeps scenarioIngress ''foo.default.example.com''
             (externalRule [''foo.default.example.com''])))
     = Inr (Some ''route-abc-623439323465'')"
proof -
  obtain r where r: "snd (makeRoute knativeDeps scenarioIngress ''foo.default.example.com''
             (externalRule [''foo.default.example.com''])) = Inr (Some r)"
    using scenarioIngress_makeRoute by simp
  have u: "UID scenarioIngress = ''abc''"
    by (simp add: scenarioIngress_def)
  have "routeName_of r = ''route-'' @ UID scenarioIngress @ ''-'' @
          hexString (hexBytes (take 3 (Sum256 (bytesOf ''foo.default.example.com''))))"
    using r routeName_shape [where K = knativeDeps and ci = scenarioIngress
        and host = "''foo.default.example.com''"
        and rule = "externalRule [''foo.default.example.com'']" and r = r]
    by blast
  also have "\<dots> = routeName ''abc'' ''foo.default.example.com''"
    unfolding u
    using routeName_shape [where uid = "''abc''" and host = "''foo.default.example.com''"]
    by simp
  finally have "routeName_of r = ''route-abc-623439323465''"
    by (simp add: scenario_routeName)
  then show ?thesis using r by simp
qed

text \<open>
  The name in the scenario is not \<open>route-abc-b4924e\<close>, as the claim states it, but
  \<open>route-abc-\<close> followed by the six characters \<open>b4924e\<close> in hexadecimal.
\<close>

theorem routeName_six_hex_counterexample:
  "take 6 (hexBytes (Sum256 (bytesOf ''foo.default.example.com''))) = ''b4924e''
   \<and> routeName ''abc'' ''foo.default.example.com'' = ''route-abc-623439323465''
   \<and> routeName ''abc'' ''foo.default.example.com'' \<noteq> ''route-abc-b4924e''"
proof -
  have a: "take 6 (hexBytes (Sum256 (bytesOf ''foo.default.example.com''))) = ''b4924e''"
    using scenario_hashHost by (simp add: hashHost_def)
  show ?thesis using a scenario_routeName by simp
qed

section \<open>Splitting at dots\<close>

text \<open>
  \<open>Split\<close> yields one piece more than there are separators, no piece holds a
  separator, and joining the pieces gives the string back.
\<close>

lemma Split_nonempty [simp]: "Split s c \<noteq> []"
  by (induction s) (auto split: list.splits)

lemma Split_length: "length (Split s c) = Suc (count_list s c)"
  by (induction s) (auto split: list.splits)

lemma Split_no_sep: "p \<in> set (Split s c) \<Longrightarrow> c \<notin> set p"
  by (induction s arbitrary: p) (auto split: list.splits if_splits)

lemma Split_Join: "Join (Split s c) c = s"
proof (induction s)
  case Nil
  show ?case by simp
next
  case (Cons a s)
  obtain p ps where sp: "Split s c = p # ps" using Split_nonempty [of s c] by (cases "Split s c") auto
  show ?case using Cons sp by (cases ps) auto
qed

section \<open>The target service\<close>

text \<open>
  The guard \<open>DomainInternal != ""\<close> is subsumed by the test of the labels: the empty
  string splits into one piece.
\<close>

lemma lbStep_valid:
  "lbStep acc lb = (if validDomain (DomainInternal lb) then serviceOf (DomainInternal lb) else acc)"
  by (auto simp: lbStep_def validDomain_def serviceOf_def Let_def)

lemma foldl_lbStep_snoc:
  "foldl lbStep acc lbs =
     (case filter (\<lambda>lb. validDomain (DomainInternal lb)) lbs of
        [] \<Rightarrow> acc
      | m # ms \<Rightarrow> serviceOf (DomainInternal (last (m # ms))))"
proof (induction lbs arbitrary: acc)
  case Nil
  show ?case by simp
next
  case (Cons lb lbs)
  have "foldl lbStep acc (lb # lbs) = foldl lbStep (lbStep acc lb) lbs" by simp
  also have "\<dots> = (case filter (\<lambda>lb. validDomain (DomainInternal lb)) lbs of
        [] \<Rightarrow> lbStep acc lb
      | m # ms \<Rightarrow> serviceOf (DomainInternal (last (m # ms))))"
    by (rule Cons.IH)
  finally show ?case
    by (cases "validDomain (DomainInternal lb)")
       (auto simp: lbStep_valid [of acc lb] split: list.splits)
qed

lemma makeRoute_target:
  "snd (makeRoute K ci host rule) = Inr (Some r) \<Longrightarrow> (ToName r, routeNamespace r) = resolveService ci"
  by (auto simp: makeRoute_def Let_def split: if_splits prod.splits)

text \<open>
  C1, as the code has it. When the status list holds at least one entry whose internal
  domain has more than two labels with the third one \<open>svc\<close>, service name and namespace
  are the first and second label of the last such entry: the loop does not stop at a
  match, so a later match overwrites an earlier one. A route that \<open>makeRoute\<close> emits
  targets that service in that namespace.
\<close>

theorem makeRoute_service_last_match:
  assumes "PublicLoadBalancer ci = Some lbs"
    and "filter (\<lambda>lb. validDomain (DomainInternal lb)) lbs \<noteq> []"
  shows "resolveService ci =
           serviceOf (DomainInternal (last (filter (\<lambda>lb. validDomain (DomainInternal lb)) lbs)))
         \<and> (snd (makeRoute K ci host rule) = Inr (Some r) \<longrightarrow>
              (ToName r, routeNamespace r) =
                serviceOf (DomainInternal (last (filter (\<lambda>lb. validDomain (DomainInternal lb)) lbs))))"
proof -
  have a: "resolveService ci =
           serviceOf (DomainInternal (last (filter (\<lambda>lb. validDomain (DomainInternal lb)) lbs)))"
    using assms by (simp add: resolveService_def foldl_lbStep_snoc split: list.splits)
  then show ?thesis using makeRoute_target [of K ci host rule r] by auto
qed

lemma valid_kourier: "validDomain (DomainInternal kourierLb)"
  by (simp add: validDomain_def kourierLb_def)

lemma valid_istio: "validDomain (DomainInternal istioLb)"
  by (simp add: validDomain_def istioLb_def)

lemma twoLbIngress_makeRoute:
  "map_sum id (map_option (\<lambda>r. (ToName r, routeNamespace r)))
      (snd (makeRoute knativeDeps twoLbIngress ''foo.default.example.com''
              (externalRule [''foo.default.example.com''])))
     = Inr (Some (''istio-ingressgateway'', ''istio-system''))"
  by (simp add: example_defs route_defs)

theorem makeRoute_service_last_match_witness:
  "PublicLoadBalancer twoLbIngress = Some [kourierLb, istioLb]
   \<and> filter (\<lambda>lb. validDomain (DomainInternal lb)) [kourierLb, istioLb] = [kourierLb, istioLb]
   \<and> resolveService twoLbIngress = serviceOf (DomainInternal istioLb)
   \<and> map_sum id (map_option (\<lambda>r. (ToName r, routeNamespace r)))
        (snd (makeRoute knativeDeps twoLbIngress ''foo.default.example.com''
                (externalRule [''foo.default.example.com''])))
      = Inr (Some (serviceOf (DomainInternal istioLb)))"
proof -
  have a: "PublicLoadBalancer twoLbIngress = Some [kourierLb, istioLb]"
    by (simp add: twoLbIngress_def scenarioIngress_def)
  have f: "filter (\<lambda>lb. validDomain (DomainInternal lb)) [kourierLb, istioLb] = [kourierLb, istioLb]"
    using valid_kourier valid_istio by simp
  then have b: "filter (\<lambda>lb. validDomain (DomainInternal lb)) [kourierLb, istioLb] \<noteq> []"
    by simp
  obtain r where r: "snd (makeRoute knativeDeps twoLbIngress ''foo.default.example.com''
              (externalRule [''foo.default.example.com''])) = Inr (Some r)"
    using twoLbIngress_makeRoute
    by (cases "snd (makeRoute knativeDeps twoLbIngress ''foo.default.example.com''
              (externalRule [''foo.default.example.com'']))") auto
  from makeRoute_service_last_match [OF a b, of knativeDeps "''foo.default.example.com''"
      "externalRule [''foo.default.example.com'']" r] r f
  have "resolveService twoLbIngress = serviceOf (DomainInternal istioLb)"
    and "(ToName r, routeNamespace r) = serviceOf (DomainInternal istioLb)"
    by simp_all
  then show ?thesis using a f r by simp
qed

text \<open>
  The claim as stated fails at \<open>twoLbIngress\<close>: the first matching entry is the one of
  \<open>kourier\<close>, and the route targets the service of the second.
\<close>

theorem makeRoute_service_first_match_counterexample:
  "PublicLoadBalancer twoLbIngress = Some [kourierLb, istioLb]
   \<and> validDomain (DomainInternal kourierLb)
   \<and> serviceOf (DomainInternal kourierLb) = (''kourier'', ''knative-serving-ingress'')
   \<and> resolveService twoLbIngress = (''istio-ingressgateway'', ''istio-system'')
   \<and> map_sum id (map_option (\<lambda>r. (ToName r, routeNamespace r)))
        (snd (makeRoute knativeDeps twoLbIngress ''foo.default.example.com''
                (externalRule [''foo.default.example.com''])))
      = Inr (Some (''istio-ingressgateway'', ''istio-system''))"
proof -
  have "serviceOf (DomainInternal kourierLb) = (''kourier'', ''knative-serving-ingress'')"
    by (simp add: serviceOf_def kourierLb_def)
  moreover have "PublicLoadBalancer twoLbIngress = Some [kourierLb, istioLb]"
    by (simp add: twoLbIngress_def scenarioIngress_def)
  moreover have "resolveService twoLbIngress = (''istio-ingressgateway'', ''istio-system'')"
    by (simp add: example_defs route_defs)
  ultimately show ?thesis using valid_kourier twoLbIngress_makeRoute by simp
qed

section \<open>Which hosts are routed\<close>

lemma routableHost_dots:
  "routableHost host =
     (count_list host CHR ''.'' = 1 \<or>
      (count_list host CHR ''.'' > 1 \<and> Split host CHR ''.'' ! 2 \<noteq> ''svc''))"
  by (auto simp: routableHost_def Let_def Split_length)

lemma makeRoute_host:
  "snd (makeRoute K ci host rule) = Inr (Some r) \<Longrightarrow> routeHost r = host"
  by (auto simp: makeRoute_def Let_def split: if_splits prod.splits)

lemma makeRoute_None:
  "(snd (makeRoute K ci host rule) = Inr None) =
     (Visibility rule = IngressVisibilityClusterLocal \<or> disabled ci)"
  by (auto simp: makeRoute_def disabled_def Let_def split: if_splits prod.splits option.splits)

lemma hostsLoop_hosts:
  assumes "Visibility rule \<noteq> IngressVisibilityClusterLocal"
  shows "snd (hostsLoop K rule hosts ci routes) = Inr routes' \<Longrightarrow>
         map routeHost routes' =
           map routeHost routes @ (if disabled ci then [] else filter routableHost hosts)"
proof (induction hosts arbitrary: ci routes)
  case Nil
  then show ?case by simp
next
  case (Cons host hosts)
  show ?case
  proof (cases "routableHost host")
    case False
    then show ?thesis using Cons by simp
  next
    case True
    obtain c1 r where mr: "makeRoute K ci host rule = (c1, r)" by (cases "makeRoute K ci host rule")
    have c1: "c1 = ci \<or> c1 = touch K ci" using makeRoute_fst_cases [of K ci host rule] mr by simp
    then have d1: "disabled c1 = disabled ci" by auto
    show ?thesis
    proof (cases r)
      case (Inl e)
      then show ?thesis using True mr Cons.prems by simp
    next
      case (Inr x)
      show ?thesis
      proof (cases x)
        case None
        then have "disabled ci" using makeRoute_None [of K ci host rule] mr Inr assms by simp
        then show ?thesis using True mr Inr None Cons.prems Cons.IH [of c1 routes] d1 by simp
      next
        case (Some rt)
        then have nd: "\<not> disabled ci" using makeRoute_None [of K ci host rule] mr Inr assms by auto
        have h: "routeHost rt = host" using makeRoute_host [of K ci host rule rt] mr Inr Some by simp
        show ?thesis using True mr Inr Some Cons.prems Cons.IH [of c1 "routes @ [rt]"] d1 nd h by simp
      qed
    qed
  qed
qed

lemma hostsLoop_skip:
  "\<forall>host\<in>set hosts. \<not> routableHost host \<Longrightarrow>
   hostsLoop K rule hosts ci routes = (ci, Inr routes)"
  by (induction hosts) simp_all

lemma rulesLoop_skip:
  "\<forall>rule\<in>set rules. Visibility rule = IngressVisibilityClusterLocal \<or>
        (\<forall>host\<in>set (Hosts rule). \<not> routableHost host) \<Longrightarrow>
   rulesLoop K rules ci routes = (ci, Inr routes)"
  by (induction rules) (auto simp: hostsLoop_skip)

lemma rulesLoop_hosts:
  "snd (rulesLoop K rules ci routes) = Inr routes' \<Longrightarrow>
   map routeHost routes' =
     map routeHost routes @
       (if disabled ci then []
        else concat (map (\<lambda>rule. if Visibility rule = IngressVisibilityClusterLocal then []
                                 else filter routableHost (Hosts rule)) rules))"
proof (induction rules arbitrary: ci routes)
  case Nil
  then show ?case by simp
next
  case (Cons rule rules)
  show ?case
  proof (cases "Visibility rule = IngressVisibilityClusterLocal")
    case True
    then show ?thesis using Cons by simp
  next
    case False
    obtain c1 r where hl: "hostsLoop K rule (Hosts rule) ci routes = (c1, r)"
      by (cases "hostsLoop K rule (Hosts rule) ci routes")
    have c1: "c1 = ci \<or> c1 = touch K ci" using hostsLoop_fst_cases [of K rule "Hosts rule" ci routes] hl by simp
    then have d1: "disabled c1 = disabled ci" by auto
    show ?thesis
    proof (cases r)
      case (Inl e)
      then show ?thesis using False hl Cons.prems by simp
    next
      case (Inr rs)
      have a: "map routeHost rs = map routeHost routes @ (if disabled ci then [] else filter routableHost (Hosts rule))"
        using hostsLoop_hosts [OF False, of K "Hosts rule" ci routes rs] hl Inr by simp
      have b: "snd (rulesLoop K rules c1 rs) = Inr routes'" using False hl Inr Cons.prems by simp
      show ?thesis using Cons.IH [OF b] a d1 False by simp
    qed
  qed
qed

text \<open>
  C5. A host is taken as externally routable exactly when it has two dot-separated
  labels (one dot), or more than two with a third label other than \<open>svc\<close>. On success
  the routes are those of the routable hosts of the rules that are not cluster-local,
  one each and in order (none when routes are disabled for the ingress): every other
  host and every cluster-local rule yields nothing. When no host is routable under a
  rule that is not cluster-local, the call returns the empty list and no error.
\<close>

theorem MakeRoutes_routed_hosts:
  "(routableHost host =
     (count_list host CHR ''.'' = 1 \<or>
      (count_list host CHR ''.'' > 1 \<and> Split host CHR ''.'' ! 2 \<noteq> ''svc''))) \<and>
   (snd (MakeRoutes K ci) = Inr routes \<longrightarrow>
      map routeHost routes = (if disabled ci then [] else routedHosts ci)) \<and>
   ((\<forall>rule\<in>set (Rules ci). Visibility rule = IngressVisibilityClusterLocal \<or>
        (\<forall>host\<in>set (Hosts rule). \<not> routableHost host)) \<longrightarrow>
      MakeRoutes K ci = (ci, Inr []))"
proof (intro conjI impI)
  show "routableHost host =
     (count_list host CHR ''.'' = 1 \<or>
      (count_list host CHR ''.'' > 1 \<and> Split host CHR ''.'' ! 2 \<noteq> ''svc''))"
    by (rule routableHost_dots)
next
  assume "snd (MakeRoutes K ci) = Inr routes"
  then show "map routeHost routes = (if disabled ci then [] else routedHosts ci)"
    using rulesLoop_hosts [of K "Rules ci" ci "[]" routes]
    by (simp add: MakeRoutes_def routedHosts_def)
next
  assume "\<forall>rule\<in>set (Rules ci). Visibility rule = IngressVisibilityClusterLocal \<or>
        (\<forall>host\<in>set (Hosts rule). \<not> routableHost host)"
  then show "MakeRoutes K ci = (ci, Inr [])"
    by (simp add: MakeRoutes_def rulesLoop_skip)
qed

lemma mixedIngress_hosts:
  "routedHosts mixedIngress = [''foo.default.example.com'', ''foo.default'']"
  by (simp add: routedHosts_def mixedIngress_def scenarioIngress_def externalRule_def
        routableHost_def)

lemma mixedIngress_routes:
  "map_sum id (map routeHost) (snd (MakeRoutes knativeDeps mixedIngress))
     = Inr [''foo.default.example.com'', ''foo.default'']"
  by (simp add: MakeRoutes_def routableHost_def example_defs route_defs)

text \<open>
  \<open>mixedIngress\<close> has hosts of one, two, three and five labels; \<open>internalOnlyIngress\<close>
  has no routable host and no usable load balancer.
\<close>

theorem MakeRoutes_routed_hosts_witness:
  "routableHost ''foo.default'' \<and> routableHost ''foo.default.example.com''
   \<and> \<not> routableHost ''localhost'' \<and> \<not> routableHost ''foo.default.svc.cluster.local''
   \<and> map_sum id (map routeHost) (snd (MakeRoutes knativeDeps mixedIngress))
        = Inr (routedHosts mixedIngress)
   \<and> MakeRoutes knativeDeps internalOnlyIngress = (internalOnlyIngress, Inr [])"
proof -
  obtain routes where r: "snd (MakeRoutes knativeDeps mixedIngress) = Inr routes"
    using mixedIngress_routes by (cases "snd (MakeRoutes knativeDeps mixedIngress)") auto
  have nd: "\<not> disabled mixedIngress"
    by (simp add: disabled_def mixedIngress_def scenarioIngress_def)
  have a: "map routeHost routes = routedHosts mixedIngress"
    using MakeRoutes_routed_hosts [of "''foo.default''" knativeDeps mixedIngress routes] r nd
    by simp
  have "\<forall>rule\<in>set (Rules internalOnlyIngress).
          Visibility rule = IngressVisibilityClusterLocal \<or>
          (\<forall>host\<in>set (Hosts rule). \<not> routableHost host)"
    by (simp add: internalOnlyIngress_def noLbIngress_def scenarioIngress_def externalRule_def
          routableHost_def)
  then have b: "MakeRoutes knativeDeps internalOnlyIngress = (internalOnlyIngress, Inr [])"
    using MakeRoutes_routed_hosts [of "''foo.default''" knativeDeps internalOnlyIngress "[]"]
    by blast
  have c: "routableHost ''foo.default'' \<and> routableHost ''foo.default.example.com''
     \<and> \<not> routableHost ''localhost'' \<and> \<not> routableHost ''foo.default.svc.cluster.local''"
    using MakeRoutes_routed_hosts [of "''foo.default''" knativeDeps mixedIngress "[]"]
      MakeRoutes_routed_hosts [of "''localhost''" knativeDeps mixedIngress "[]"]
    by (simp add: routableHost_def)
  show ?thesis using a b c r by simp
qed

section \<open>The disable-route annotation\<close>

lemma makeRoute_disabled:
  assumes "Annotations ci = Some m" and "m DisableRouteAnnotation \<noteq> None"
  shows "makeRoute K ci host rule = (ci, Inr None)"
  using assms by (simp add: makeRoute_def)

lemma hostsLoop_disabled:
  assumes "Annotations ci = Some m" and "m DisableRouteAnnotation \<noteq> None"
  shows "hostsLoop K rule hosts ci routes = (ci, Inr routes)"
  using assms by (induction hosts) (simp_all add: makeRoute_disabled)

lemma rulesLoop_disabled:
  assumes "Annotations ci = Some m" and "m DisableRouteAnnotation \<noteq> None"
  shows "rulesLoop K rules ci routes = (ci, Inr routes)"
  using assms by (induction rules) (simp_all add: hostsLoop_disabled)

text \<open>
  C10. An ingress whose annotation map holds the disable-route annotation yields the
  empty route list and no error, whatever its load-balancer status is: the check of the
  annotation returns before the load balancer is looked at. The ingress is left as it was.
\<close>

theorem MakeRoutes_disableRoute:
  assumes "Annotations ci = Some m" and "m DisableRouteAnnotation \<noteq> None"
  shows "MakeRoutes K ci = (ci, Inr [])"
  using assms by (simp add: MakeRoutes_def rulesLoop_disabled)

text \<open>
  At \<open>disabledIngress\<close> the load balancer resolves to no service and the host is
  routable, so without the annotation the call would fail.
\<close>

theorem MakeRoutes_disableRoute_witness:
  "Annotations disabledIngress = Some (Map.empty(DisableRouteAnnotation \<mapsto> []))
   \<and> (Map.empty(DisableRouteAnnotation \<mapsto> [])) DisableRouteAnnotation \<noteq> None
   \<and> resolveService disabledIngress = ([], [])
   \<and> routableHost ''foo.example.com''
   \<and> MakeRoutes knativeDeps disabledIngress = (disabledIngress, Inr [])"
proof -
  have a: "Annotations disabledIngress = Some (Map.empty(DisableRouteAnnotation \<mapsto> []))"
    by (simp add: disabledIngress_def)
  have b: "(Map.empty(DisableRouteAnnotation \<mapsto> [])) DisableRouteAnnotation \<noteq> None"
    by simp
  have c: "resolveService disabledIngress = ([], [])"
    by (simp add: resolveService_def disabledIngress_def)
  have d: "routableHost ''foo.example.com''"
    by (simp add: routableHost_def)
  show ?thesis using a b c d MakeRoutes_disableRoute [OF a b, of knativeDeps] by simp
qed

section \<open>TLS termination and the insecure-traffic policy\<close>


lemma makeRoute_tls:
  assumes "snd (makeRoute K ci host rule) = Inr (Some r)"
  shows "Termination r = (if hasPassthrough ci then TLSTerminationPassthrough else TLSTerminationEdge)"
    and "TargetPort r = (if hasPassthrough ci then HTTPSPort else HTTPPort)"
    and "hasPassthrough ci \<Longrightarrow> InsecurePolicy r = InsecureEdgeTerminationPolicyRedirect"
  using assms
  by (auto simp: makeRoute_def hasPassthrough_def Let_def split: if_splits prod.splits option.splits)

lemma makeRoute_policy:
  assumes "snd (makeRoute K ci host rule) = Inr (Some r)"
    and "HTTPOptionAnnotationKey K \<noteq> TimeoutAnnotation"
    and "\<not> hasPassthrough ci"
  shows "InsecurePolicy r =
     (if httpOptionAnnotation K ci \<noteq> [] then
        (if ToLower K (httpOptionAnnotation K ci) = ''enabled''
         then InsecureEdgeTerminationPolicyAllow else InsecureEdgeTerminationPolicyRedirect)
      else if HTTPOption ci = HTTPOptionRedirected then InsecureEdgeTerminationPolicyRedirect
      else InsecureEdgeTerminationPolicyAllow)"
  using assms
  by (auto simp: makeRoute_def hasPassthrough_def httpOptionAnnotation_def lookupStr_def Let_def
      split: if_splits prod.splits option.splits)

lemma hostsLoop_routes:
  "snd (hostsLoop K rule hosts ci routes) = Inr routes' \<Longrightarrow> r \<in> set routes' \<Longrightarrow>
   r \<in> set routes \<or> (\<exists>h\<in>set hosts. snd (makeRoute K ci h rule) = Inr (Some r))"
proof (induction hosts arbitrary: ci routes)
  case Nil
  then show ?case by simp
next
  case (Cons host hosts)
  show ?case
  proof (cases "routableHost host")
    case False
    then show ?thesis using Cons by auto
  next
    case True
    obtain c1 x where mr: "makeRoute K ci host rule = (c1, x)" by (cases "makeRoute K ci host rule")
    have c1: "c1 = ci \<or> c1 = touch K ci" using makeRoute_fst_cases [of K ci host rule] mr by simp
    have same: "\<And>h. snd (makeRoute K c1 h rule) = snd (makeRoute K ci h rule)"
      using c1 by (auto simp: makeRoute_touch)
    show ?thesis
    proof (cases x)
      case (Inl e)
      then show ?thesis using True mr Cons.prems by simp
    next
      case (Inr y)
      show ?thesis
      proof (cases y)
        case None
        then have "snd (hostsLoop K rule hosts c1 routes) = Inr routes'"
          using True mr Inr Cons.prems by simp
        from Cons.IH [OF this Cons.prems(2)] show ?thesis using same by auto
      next
        case (Some rt)
        then have "snd (hostsLoop K rule hosts c1 (routes @ [rt])) = Inr routes'"
          using True mr Inr Cons.prems by simp
        from Cons.IH [OF this Cons.prems(2)] show ?thesis using same mr Inr Some by auto
      qed
    qed
  qed
qed

lemma rulesLoop_routes:
  "snd (rulesLoop K rules ci routes) = Inr routes' \<Longrightarrow> r \<in> set routes' \<Longrightarrow>
   r \<in> set routes \<or>
   (\<exists>rule\<in>set rules. \<exists>h\<in>set (Hosts rule). snd (makeRoute K ci h rule) = Inr (Some r))"
proof (induction rules arbitrary: ci routes)
  case Nil
  then show ?case by simp
next
  case (Cons rule rules)
  show ?case
  proof (cases "Visibility rule = IngressVisibilityClusterLocal")
    case True
    then show ?thesis using Cons by auto
  next
    case False
    obtain c1 x where hl: "hostsLoop K rule (Hosts rule) ci routes = (c1, x)"
      by (cases "hostsLoop K rule (Hosts rule) ci routes")
    have c1: "c1 = ci \<or> c1 = touch K ci" using hostsLoop_fst_cases [of K rule "Hosts rule" ci routes] hl by simp
    have same: "\<And>h rule'. snd (makeRoute K c1 h rule') = snd (makeRoute K ci h rule')"
      using c1 by (auto simp: makeRoute_touch)
    show ?thesis
    proof (cases x)
      case (Inl e)
      then show ?thesis using False hl Cons.prems by simp
    next
      case (Inr rs)
      then have "snd (rulesLoop K rules c1 rs) = Inr routes'"
        using False hl Cons.prems by simp
      from Cons.IH [OF this Cons.prems(2)]
      have "r \<in> set rs \<or>
         (\<exists>rule\<in>set rules. \<exists>h\<in>set (Hosts rule). snd (makeRoute K ci h rule) = Inr (Some r))"
        using same by simp
      moreover have "r \<in> set rs \<Longrightarrow> r \<in> set routes \<or> (\<exists>h\<in>set (Hosts rule). snd (makeRoute K ci h rule) = Inr (Some r))"
        using hostsLoop_routes [of K rule "Hosts rule" ci routes rs r] hl Inr by simp
      ultimately show ?thesis by auto
    qed
  qed
qed

lemma MakeRoutes_routes:
  "snd (MakeRoutes K ci) = Inr routes \<Longrightarrow> r \<in> set routes \<Longrightarrow>
   \<exists>rule\<in>set (Rules ci). \<exists>h\<in>set (Hosts rule). snd (makeRoute K ci h rule) = Inr (Some r)"
  using rulesLoop_routes [of K "Rules ci" ci "[]" routes r] by (simp add: MakeRoutes_def)

text \<open>
  C6, as the code has it. When the ingress carries a TLS secret reference or the
  enable-passthrough annotation, every route that \<open>MakeRoutes\<close> returns has
  passthrough termination, the port \<open>https\<close> and the policy \<open>Redirect\<close>, whatever the
  HTTP option and the legacy annotation say. Otherwise termination is \<open>edge\<close> and the
  port \<open>http2\<close>; and when the ingress has no (or an empty) legacy HTTP-option
  annotation, the policy is \<open>Redirect\<close> if the HTTP option of the ingress is
  \<open>Redirected\<close> and \<open>Allow\<close> if not. The HTTP option is read from the ingress, not
  from the rule.
\<close>

theorem MakeRoutes_tls:
  assumes "HTTPOptionAnnotationKey K \<noteq> TimeoutAnnotation"
    and "snd (MakeRoutes K ci) = Inr routes" and "r \<in> set routes"
  shows "(hasPassthrough ci \<longrightarrow>
            Termination r = TLSTerminationPassthrough \<and> TargetPort r = HTTPSPort \<and>
            InsecurePolicy r = InsecureEdgeTerminationPolicyRedirect)
       \<and> (\<not> hasPassthrough ci \<longrightarrow>
            Termination r = TLSTerminationEdge \<and> TargetPort r = HTTPPort \<and>
            (httpOptionAnnotation K ci = [] \<longrightarrow>
               InsecurePolicy r =
                 (if HTTPOption ci = HTTPOptionRedirected
                  then InsecureEdgeTerminationPolicyRedirect
                  else InsecureEdgeTerminationPolicyAllow)))"
proof -
  obtain rule h where mr: "snd (makeRoute K ci h rule) = Inr (Some r)"
    using MakeRoutes_routes [OF assms(2,3)] by blast
  show ?thesis
    using makeRoute_tls [OF mr] makeRoute_policy [OF mr assms(1)] by auto
qed

lemma knative_key [simp]: "HTTPOptionAnnotationKey knativeDeps \<noteq> TimeoutAnnotation"
  by (simp add: knativeDeps_def TimeoutAnnotation_def)

theorem MakeRoutes_tls_witness:
  "HTTPOptionAnnotationKey knativeDeps \<noteq> TimeoutAnnotation
   \<and> hasPassthrough (tlsIngress ''enabled'')
   \<and> map_sum id (map (\<lambda>r. (Termination r, TargetPort r, InsecurePolicy r)))
        (snd (MakeRoutes knativeDeps (tlsIngress ''enabled'')))
      = Inr [(TLSTerminationPassthrough, HTTPSPort, InsecureEdgeTerminationPolicyRedirect)]
   \<and> \<not> hasPassthrough scenarioIngress
   \<and> httpOptionAnnotation knativeDeps scenarioIngress = []
   \<and> HTTPOption scenarioIngress = HTTPOptionRedirected
   \<and> map_sum id (map (\<lambda>r. (Termination r, TargetPort r, InsecurePolicy r)))
        (snd (MakeRoutes knativeDeps scenarioIngress))
      = Inr [(TLSTerminationEdge, HTTPPort, InsecureEdgeTerminationPolicyRedirect)]"
proof -
  have p1: "hasPassthrough (tlsIngress ''enabled'')"
    by (simp add: hasPassthrough_def example_defs)
  have "map_sum id (map routeHost) (snd (MakeRoutes knativeDeps (tlsIngress ''enabled'')))
      = Inr [''foo.default.example.com'']"
    by (simp add: MakeRoutes_def routableHost_def example_defs route_defs lower_defs)
  then obtain r1 where r1: "snd (MakeRoutes knativeDeps (tlsIngress ''enabled'')) = Inr [r1]"
    by (cases "snd (MakeRoutes knativeDeps (tlsIngress ''enabled''))") auto
  have t1: "Termination r1 = TLSTerminationPassthrough \<and> TargetPort r1 = HTTPSPort \<and>
            InsecurePolicy r1 = InsecureEdgeTerminationPolicyRedirect"
    using MakeRoutes_tls [OF knative_key r1, of r1] p1 by simp
  have p2: "\<not> hasPassthrough scenarioIngress"
    by (simp add: hasPassthrough_def example_defs)
  have a2: "httpOptionAnnotation knativeDeps scenarioIngress = []"
    by (simp add: httpOptionAnnotation_def example_defs)
  have h2: "HTTPOption scenarioIngress = HTTPOptionRedirected"
    by (simp add: example_defs)
  have "map_sum id (map routeHost) (snd (MakeRoutes knativeDeps scenarioIngress))
      = Inr [''foo.default.example.com'']"
    by (simp add: MakeRoutes_def routableHost_def example_defs route_defs lower_defs)
  then obtain r2 where r2: "snd (MakeRoutes knativeDeps scenarioIngress) = Inr [r2]"
    by (cases "snd (MakeRoutes knativeDeps scenarioIngress)") auto
  have t2: "Termination r2 = TLSTerminationEdge \<and> TargetPort r2 = HTTPPort \<and>
            InsecurePolicy r2 = InsecureEdgeTerminationPolicyRedirect"
    using MakeRoutes_tls [OF knative_key r2, of r2] p2 a2 h2 by simp
  show ?thesis using p1 r1 t1 p2 a2 h2 r2 t2 by simp
qed

text \<open>
  Without a passthrough trigger and with the HTTP option \<open>Redirected\<close>, the legacy
  annotation \<open>Enabled\<close> makes the policy \<open>Allow\<close>: the claim as stated fails.
\<close>

theorem MakeRoutes_tls_counterexample:
  "\<not> hasPassthrough (legacyIngress ''Enabled'')
   \<and> HTTPOption (legacyIngress ''Enabled'') = HTTPOptionRedirected
   \<and> map_sum id (map (\<lambda>r. (Termination r, InsecurePolicy r)))
        (snd (MakeRoutes knativeDeps (legacyIngress ''Enabled'')))
      = Inr [(TLSTerminationEdge, InsecureEdgeTerminationPolicyAllow)]"
proof -
  have "\<not> hasPassthrough (legacyIngress ''Enabled'')"
    by (simp add: hasPassthrough_def example_defs route_defs)
  moreover have "HTTPOption (legacyIngress ''Enabled'') = HTTPOptionRedirected"
    by (simp add: example_defs)
  moreover have "map_sum id (map (\<lambda>r. (Termination r, InsecurePolicy r)))
        (snd (MakeRoutes knativeDeps (legacyIngress ''Enabled'')))
      = Inr [(TLSTerminationEdge, InsecureEdgeTerminationPolicyAllow)]"
    by (simp add: MakeRoutes_def routableHost_def example_defs route_defs lower_defs)
  ultimately show ?thesis by simp
qed

section \<open>The legacy HTTP-option annotation\<close>

lemma ToLower_ascii: "isASCII v \<Longrightarrow> ToLower K v = map asciiLower v"
  by (simp add: ToLower_def)

lemma makeRoute_annotation_ok:
  assumes "HTTPOptionAnnotationKey K \<noteq> TimeoutAnnotation"
    and "Annotations ci = Some m" and "m (HTTPOptionAnnotationKey K) = Some v" and "v \<noteq> []"
    and "Visibility rule \<noteq> IngressVisibilityClusterLocal" and "\<not> disabled ci"
    and "fst (resolveService ci) \<noteq> []" and "snd (resolveService ci) \<noteq> []"
    and "ToLower K v = ''enabled'' \<or> ToLower K v = ''redirected''"
  shows "\<exists>r. snd (makeRoute K ci host rule) = Inr (Some r) \<and>
             InsecurePolicy r =
               (if hasPassthrough ci \<or> ToLower K v = ''redirected''
                then InsecureEdgeTerminationPolicyRedirect
                else InsecureEdgeTerminationPolicyAllow)"
  using assms
  by (cases "resolveService ci")
     (auto simp: makeRoute_def disabled_def hasPassthrough_def lookupStr_def Let_def)

lemma makeRoute_annotation_bad:
  assumes "HTTPOptionAnnotationKey K \<noteq> TimeoutAnnotation"
    and "Annotations ci = Some m" and "m (HTTPOptionAnnotationKey K) = Some v" and "v \<noteq> []"
    and "Visibility rule \<noteq> IngressVisibilityClusterLocal" and "\<not> disabled ci"
    and "fst (resolveService ci) \<noteq> []" and "snd (resolveService ci) \<noteq> []"
    and "ToLower K v \<noteq> ''enabled''" and "ToLower K v \<noteq> ''redirected''"
  shows "snd (makeRoute K ci host rule) = Inl (ErrIncorrectHTTPOption (Errorf K (''incorrect HTTPOption annotation: '' @ v)))"
  using assms
  by (cases "resolveService ci")
     (auto simp: makeRoute_def disabled_def lookupStr_def Let_def)

text \<open>
  C7, as the code has it. Let the ingress carry the legacy HTTP-option annotation with a
  non-empty value \<open>v\<close>, and let \<open>makeRoute\<close> reach the annotation: the rule is not
  cluster-local, routes are not disabled, and the load balancer yields a service name
  and a namespace. If \<open>v\<close> in lower case is \<open>enabled\<close>, the route is built with the
  policy \<open>Allow\<close>, unless passthrough is asked for, which makes it \<open>Redirect\<close>; if it
  is \<open>redirected\<close>, the policy is \<open>Redirect\<close>; for any other value \<open>makeRoute\<close>
  returns the incorrect-HTTPOption error, and so does \<open>MakeRoutes\<close> as soon as the
  host is a routable host of a rule of the ingress. The message of that error is what
  \<open>fmt.Errorf\<close> makes of the prefix followed by \<open>v\<close> as a format string: the prefix
  and \<open>v\<close> when \<open>v\<close> holds no percent sign. For an ASCII value, lower case is the
  letters \<open>A\<close> to \<open>Z\<close> replaced.
\<close>

theorem makeRoute_legacy_annotation:
  assumes "HTTPOptionAnnotationKey K \<noteq> TimeoutAnnotation"
    and "Annotations ci = Some m" and "m (HTTPOptionAnnotationKey K) = Some v" and "v \<noteq> []"
    and "Visibility rule \<noteq> IngressVisibilityClusterLocal" and "\<not> disabled ci"
    and "fst (resolveService ci) \<noteq> []" and "snd (resolveService ci) \<noteq> []"
  shows "(isASCII v \<longrightarrow> ToLower K v = map asciiLower v)
       \<and> (ToLower K v = ''enabled'' \<longrightarrow>
            (\<exists>r. snd (makeRoute K ci host rule) = Inr (Some r) \<and>
                 InsecurePolicy r = (if hasPassthrough ci
                                     then InsecureEdgeTerminationPolicyRedirect
                                     else InsecureEdgeTerminationPolicyAllow)))
       \<and> (ToLower K v = ''redirected'' \<longrightarrow>
            (\<exists>r. snd (makeRoute K ci host rule) = Inr (Some r) \<and>
                 InsecurePolicy r = InsecureEdgeTerminationPolicyRedirect))
       \<and> (ToLower K v \<noteq> ''enabled'' \<and> ToLower K v \<noteq> ''redirected'' \<longrightarrow>
            snd (makeRoute K ci host rule) = Inl (ErrIncorrectHTTPOption (Errorf K (''incorrect HTTPOption annotation: '' @ v))) \<and>
            (rule \<in> set (Rules ci) \<and> host \<in> set (Hosts rule) \<and> routableHost host \<longrightarrow>
               snd (MakeRoutes K ci) = Inl (ErrIncorrectHTTPOption (Errorf K (''incorrect HTTPOption annotation: '' @ v)))))
       \<and> (CHR ''%'' \<notin> set v \<longrightarrow>
            Errorf K (''incorrect HTTPOption annotation: '' @ v) =
              ''incorrect HTTPOption annotation: '' @ v)"
proof (intro conjI impI)
  assume "isASCII v"
  then show "ToLower K v = map asciiLower v" by (rule ToLower_ascii)
next
  assume e: "ToLower K v = ''enabled''"
  then show "\<exists>r. snd (makeRoute K ci host rule) = Inr (Some r) \<and>
                 InsecurePolicy r = (if hasPassthrough ci
                                     then InsecureEdgeTerminationPolicyRedirect
                                     else InsecureEdgeTerminationPolicyAllow)"
    using makeRoute_annotation_ok [OF assms, of host] by simp
next
  assume e: "ToLower K v = ''redirected''"
  then show "\<exists>r. snd (makeRoute K ci host rule) = Inr (Some r) \<and>
                 InsecurePolicy r = InsecureEdgeTerminationPolicyRedirect"
    using makeRoute_annotation_ok [OF assms, of host] by simp
next
  assume b: "ToLower K v \<noteq> ''enabled'' \<and> ToLower K v \<noteq> ''redirected''"
  then show "snd (makeRoute K ci host rule) = Inl (ErrIncorrectHTTPOption (Errorf K (''incorrect HTTPOption annotation: '' @ v)))"
    using makeRoute_annotation_bad [OF assms, of host] by simp
next
  assume b: "ToLower K v \<noteq> ''enabled'' \<and> ToLower K v \<noteq> ''redirected''"
    and p: "rule \<in> set (Rules ci) \<and> host \<in> set (Hosts rule) \<and> routableHost host"
  have "snd (makeRoute K ci host rule) = Inl (ErrIncorrectHTTPOption (Errorf K (''incorrect HTTPOption annotation: '' @ v)))"
    using b makeRoute_annotation_bad [OF assms, of host] by simp
  then have "\<exists>rule\<in>set (Rules ci). Visibility rule \<noteq> IngressVisibilityClusterLocal \<and>
       (\<exists>host\<in>set (Hosts rule). routableHost host \<and>
          snd (makeRoute K ci host rule) = Inl (ErrIncorrectHTTPOption (Errorf K (''incorrect HTTPOption annotation: '' @ v))))"
    using p assms(5) by blast
  then show "snd (MakeRoutes K ci) = Inl (ErrIncorrectHTTPOption (Errorf K (''incorrect HTTPOption annotation: '' @ v)))"
    by (simp add: MakeRoutes_def rulesLoop_err)
next
  assume "CHR ''%'' \<notin> set v"
  then show "Errorf K (''incorrect HTTPOption annotation: '' @ v) =
              ''incorrect HTTPOption annotation: '' @ v"
    by (simp add: Errorf_def)
qed

lemma legacy_annotations:
  "Annotations (legacyIngress v) = Some [HTTPOptionAnnotationKey knativeDeps \<mapsto> v]"
  by (simp add: legacyIngress_def)

lemma legacy_live:
  "\<not> disabled (legacyIngress v)"
  "fst (resolveService (legacyIngress v)) \<noteq> []"
  "snd (resolveService (legacyIngress v)) \<noteq> []"
  "Rules (legacyIngress v) = [externalRule [''foo.default.example.com'']]"
  "\<not> hasPassthrough (legacyIngress v)"
  by (simp_all add: disabled_def hasPassthrough_def example_defs route_defs)

lemma lower_examples:
  "ToLower knativeDeps ''Enabled'' = ''enabled''"
  "ToLower knativeDeps ''REDIRECTED'' = ''redirected''"
  "ToLower knativeDeps ''bogus'' = ''bogus''"
  "ToLower knativeDeps ''%d'' = ''%d''"
  by (simp_all add: lower_defs)

text \<open>
  The values \<open>Enabled\<close>, \<open>REDIRECTED\<close>, \<open>bogus\<close> and \<open>%d\<close> on the scenario; the
  message for the last one is left to \<open>fmt\<close>.
\<close>

theorem makeRoute_legacy_annotation_witness:
  "map_sum id (map_option InsecurePolicy)
     (snd (makeRoute knativeDeps (legacyIngress ''Enabled'') ''foo.default.example.com''
             (externalRule [''foo.default.example.com''])))
     = Inr (Some InsecureEdgeTerminationPolicyAllow)
   \<and> map_sum id (map_option InsecurePolicy)
     (snd (makeRoute knativeDeps (legacyIngress ''REDIRECTED'') ''foo.default.example.com''
             (externalRule [''foo.default.example.com''])))
     = Inr (Some InsecureEdgeTerminationPolicyRedirect)
   \<and> snd (MakeRoutes knativeDeps (legacyIngress ''bogus''))
       = Inl (ErrIncorrectHTTPOption ''incorrect HTTPOption annotation: bogus'')
   \<and> snd (MakeRoutes knativeDeps (legacyIngress ''%d''))
       = Inl (ErrIncorrectHTTPOption
               (fmtNoOperands knativeDeps ''incorrect HTTPOption annotation: %d''))"
proof -
  have k: "HTTPOptionAnnotationKey knativeDeps \<noteq> TimeoutAnnotation"
    by (rule knative_key)
  have v: "Visibility (externalRule [''foo.default.example.com'']) \<noteq> IngressVisibilityClusterLocal"
    by (simp add: externalRule_def)
  have m: "\<And>v. [HTTPOptionAnnotationKey knativeDeps \<mapsto> v] (HTTPOptionAnnotationKey knativeDeps) = Some v"
    by simp
  have a: "map_sum id (map_option InsecurePolicy)
     (snd (makeRoute knativeDeps (legacyIngress ''Enabled'') ''foo.default.example.com''
             (externalRule [''foo.default.example.com''])))
     = Inr (Some InsecureEdgeTerminationPolicyAllow)"
    using makeRoute_legacy_annotation [OF k legacy_annotations m _ v legacy_live(1-3),
        of "''Enabled''" "''foo.default.example.com''"] lower_examples legacy_live(5)
    by auto
  have b: "map_sum id (map_option InsecurePolicy)
     (snd (makeRoute knativeDeps (legacyIngress ''REDIRECTED'') ''foo.default.example.com''
             (externalRule [''foo.default.example.com''])))
     = Inr (Some InsecureEdgeTerminationPolicyRedirect)"
    using makeRoute_legacy_annotation [OF k legacy_annotations m _ v legacy_live(1-3),
        of "''REDIRECTED''" "''foo.default.example.com''"] lower_examples
    by auto
  have c: "snd (MakeRoutes knativeDeps (legacyIngress ''bogus''))
       = Inl (ErrIncorrectHTTPOption ''incorrect HTTPOption annotation: bogus'')"
    using makeRoute_legacy_annotation [OF k legacy_annotations m _ v legacy_live(1-3),
        of "''bogus''" "''foo.default.example.com''"] lower_examples legacy_live(4) routable_example
    by (simp add: externalRule_def)
  have d: "snd (MakeRoutes knativeDeps (legacyIngress ''%d''))
       = Inl (ErrIncorrectHTTPOption
               (fmtNoOperands knativeDeps ''incorrect HTTPOption annotation: %d''))"
    using makeRoute_legacy_annotation [OF k legacy_annotations m _ v legacy_live(1-3),
        of "''%d''" "''foo.default.example.com''"] lower_examples legacy_live(4) routable_example
    by (simp add: externalRule_def Errorf_def)
  show ?thesis using a b c d by simp
qed

text \<open>
  The claim as stated fails twice: with a TLS secret reference the value \<open>enabled\<close>
  gives the policy \<open>Redirect\<close>, and without a usable load balancer an invalid value
  gives the load-balancer error, not the annotation error.
\<close>

theorem makeRoute_legacy_annotation_counterexample:
  "httpOptionAnnotation knativeDeps (tlsIngress ''enabled'') = ''enabled''
   \<and> map_sum id (map InsecurePolicy) (snd (MakeRoutes knativeDeps (tlsIngress ''enabled'')))
       = Inr [InsecureEdgeTerminationPolicyRedirect]
   \<and> httpOptionAnnotation knativeDeps bogusNoLbIngress = ''bogus''
   \<and> snd (MakeRoutes knativeDeps bogusNoLbIngress) = Inl ErrNoValidLoadbalancerDomain"
proof -
  have "httpOptionAnnotation knativeDeps (tlsIngress ''enabled'') = ''enabled''"
    by (simp add: httpOptionAnnotation_def example_defs route_defs)
  moreover have "map_sum id (map InsecurePolicy) (snd (MakeRoutes knativeDeps (tlsIngress ''enabled'')))
       = Inr [InsecureEdgeTerminationPolicyRedirect]"
    by (simp add: MakeRoutes_def routableHost_def example_defs route_defs lower_defs)
  moreover have "httpOptionAnnotation knativeDeps bogusNoLbIngress = ''bogus''"
    by (simp add: httpOptionAnnotation_def example_defs route_defs)
  moreover have "snd (MakeRoutes knativeDeps bogusNoLbIngress) = Inl ErrNoValidLoadbalancerDomain"
    by (simp add: MakeRoutes_def routableHost_def example_defs route_defs lower_defs)
  ultimately show ?thesis by simp
qed

section \<open>The write to the annotations of the ingress\<close>

text \<open>
  Which ingress a call leaves: the one it was given with the timeout annotation written,
  as soon as one host is processed and routes are not disabled. An ingress whose
  annotation map is nil is returned as it was; repeating the call gives the same result.
\<close>


lemma hostsLoop_fst:
  assumes "Visibility rule \<noteq> IngressVisibilityClusterLocal"
  shows "fst (hostsLoop K rule hosts ci routes) =
           (if \<not> disabled ci \<and> (\<exists>h\<in>set hosts. routableHost h) then touch K ci else ci)"
proof (induction hosts arbitrary: ci routes)
  case Nil
  show ?case by simp
next
  case (Cons host hosts)
  show ?case
  proof (cases "routableHost host")
    case False
    then show ?thesis using Cons.IH by simp
  next
    case True
    obtain c1 x where mr: "makeRoute K ci host rule = (c1, x)" by (cases "makeRoute K ci host rule")
    show ?thesis
    proof (cases "disabled ci")
      case d: True
      then have "makeRoute K ci host rule = (ci, Inr None)" by (simp add: makeRoute_skip)
      then show ?thesis using True d Cons.IH [of ci routes] by simp
    next
      case d: False
      then have c1: "c1 = touch K ci" using makeRoute_fst [of rule ci K host] assms mr by simp
      have "\<And>rs. fst (hostsLoop K rule hosts c1 rs) = touch K ci"
        unfolding c1 using Cons.IH [of "touch K ci"] by simp
      then show ?thesis using True d mr c1
        by (simp split: sum.splits option.splits)
    qed
  qed
qed

lemma rulesLoop_fst:
  "fst (rulesLoop K rules ci routes) =
     (if \<not> disabled ci \<and>
         (\<exists>rule\<in>set rules. Visibility rule \<noteq> IngressVisibilityClusterLocal \<and>
            (\<exists>h\<in>set (Hosts rule). routableHost h))
      then touch K ci else ci)"
proof (induction rules arbitrary: ci routes)
  case Nil
  show ?case by simp
next
  case (Cons rule rules)
  show ?case
  proof (cases "Visibility rule = IngressVisibilityClusterLocal")
    case True
    then show ?thesis using Cons.IH by simp
  next
    case False
    obtain c1 x where hl: "hostsLoop K rule (Hosts rule) ci routes = (c1, x)"
      by (cases "hostsLoop K rule (Hosts rule) ci routes")
    have c1: "c1 = (if \<not> disabled ci \<and> (\<exists>h\<in>set (Hosts rule). routableHost h) then touch K ci else ci)"
      using hostsLoop_fst [OF False, of K "Hosts rule" ci routes] hl by simp
    have next_fst: "\<And>rs. fst (rulesLoop K rules c1 rs) =
       (if \<not> disabled ci \<and>
         (\<exists>rule\<in>set (rule # rules). Visibility rule \<noteq> IngressVisibilityClusterLocal \<and>
            (\<exists>h\<in>set (Hosts rule). routableHost h))
        then touch K ci else ci)"
      using Cons.IH [of c1] c1 False by auto
    show ?thesis
    proof (cases x)
      case (Inl e)
      then have "\<exists>h\<in>set (Hosts rule). routableHost h"
        using hostsLoop_err [OF False, of K "Hosts rule" ci routes e] hl by auto
      moreover have "\<not> disabled ci"
      proof
        assume "disabled ci"
        then obtain m where "Annotations ci = Some m" "m DisableRouteAnnotation \<noteq> None"
          by (auto simp: disabled_def split: option.splits)
        then have "hostsLoop K rule (Hosts rule) ci routes = (ci, Inr routes)"
          by (rule hostsLoop_disabled)
        with hl Inl show False by simp
      qed
      ultimately show ?thesis using False hl Inl c1 by auto
    next
      case (Inr rs)
      then show ?thesis using False hl next_fst [of rs] by simp
    qed
  qed
qed

lemma routed_nonempty:
  "(concat (map (\<lambda>rule. if Visibility rule = IngressVisibilityClusterLocal then []
                         else filter routableHost (Hosts rule)) rules) \<noteq> []) =
   (\<exists>rule\<in>set rules. Visibility rule \<noteq> IngressVisibilityClusterLocal \<and>
            (\<exists>h\<in>set (Hosts rule). routableHost h))"
  by (induction rules) (auto simp: filter_empty_conv)

lemma MakeRoutes_frame:
  "fst (MakeRoutes K ci) = (if \<not> disabled ci \<and> routedHosts ci \<noteq> [] then touch K ci else ci)"
  unfolding routedHosts_def routed_nonempty
  by (simp add: MakeRoutes_def rulesLoop_fst)

lemma MakeRoutes_nil_annotations:
  "Annotations ci = None \<Longrightarrow> fst (MakeRoutes K ci) = ci"
  by (simp add: MakeRoutes_frame touch_def)

text \<open>
  C3 does not hold of the code. \<open>annotatedIngress\<close> has an allocated, empty annotation
  map; after \<open>MakeRoutes\<close> that map holds the timeout annotation, so the input has
  changed.
\<close>

theorem MakeRoutes_writes_timeout_annotation:
  "Annotations annotatedIngress = Some Map.empty
   \<and> Annotations (fst (MakeRoutes knativeDeps annotatedIngress))
       = Some [TimeoutAnnotation \<mapsto> ''600s'']
   \<and> fst (MakeRoutes knativeDeps annotatedIngress) \<noteq> annotatedIngress"
proof -
  have a: "Annotations annotatedIngress = Some Map.empty"
    by (simp add: annotatedIngress_def)
  have b: "Annotations (fst (MakeRoutes knativeDeps annotatedIngress))
       = Some [TimeoutAnnotation \<mapsto> ''600s'']"
    by (simp add: MakeRoutes_def routableHost_def example_defs route_defs
      DefaultTimeout_def showNat.simps digitChar_def)
  have "Annotations (fst (MakeRoutes knativeDeps annotatedIngress)) \<noteq> Annotations annotatedIngress"
    unfolding a b by simp
  then have "fst (MakeRoutes knativeDeps annotatedIngress) \<noteq> annotatedIngress"
    by auto
  then show ?thesis using a b by simp
qed

section \<open>Defaulting: the ingress backend and monitoring\<close>

lemma enabledCount_zero:
  "(enabledCount cfg = 0) =
     (\<not> Enabled (Kourier cfg) \<and> \<not> Enabled (Istio cfg) \<and> \<not> Enabled (Contour cfg))"
  by (simp add: enabledCount_def)

lemma resolveIngress_idem: "resolveIngress (Some (resolveIngress blk)) = resolveIngress blk"
  by (simp add: resolveIngress_def enabledCount_def normalizeExposure_def Let_def
      emptyIngressConfigs_def disabledBackend_def split: option.splits)

text \<open>
  C8. When no ingress backend is enabled, the block being absent or all three backends
  disabled, the resolved block has the reference backend Kourier enabled with the
  exposure \<open>ClusterIP\<close>, and no other backend enabled.
\<close>

theorem resolveIngress_self_heal:
  assumes "blk = None \<or>
           (\<exists>cfg. blk = Some cfg \<and> \<not> Enabled (Kourier cfg) \<and> \<not> Enabled (Istio cfg) \<and>
                  \<not> Enabled (Contour cfg))"
  shows "Kourier (resolveIngress blk) = \<lparr> Enabled = True, ServiceType = Some ClusterIP \<rparr>
       \<and> \<not> Enabled (Istio (resolveIngress blk))
       \<and> \<not> Enabled (Contour (resolveIngress blk))
       \<and> enabledCount (resolveIngress blk) = 1"
  using assms
  by (auto simp: resolveIngress_def enabledCount_def emptyIngressConfigs_def
      disabledBackend_def Let_def)

text \<open>The absent block, and the case of \<open>TestReconcile\<close> with its expected block.\<close>

theorem resolveIngress_self_heal_witness:
  "Kourier (resolveIngress None) = \<lparr> Enabled = True, ServiceType = Some ClusterIP \<rparr>
   \<and> enabledCount (resolveIngress None) = 1
   \<and> enabledCount wrongIngressConfig = 0
   \<and> resolveIngress (Some wrongIngressConfig) = fixedIngressConfig"
proof -
  have a: "Kourier (resolveIngress None) = \<lparr> Enabled = True, ServiceType = Some ClusterIP \<rparr>
       \<and> enabledCount (resolveIngress None) = 1"
    using resolveIngress_self_heal [of None] by simp
  have w: "\<not> Enabled (Kourier wrongIngressConfig) \<and> \<not> Enabled (Istio wrongIngressConfig) \<and>
           \<not> Enabled (Contour wrongIngressConfig)"
    by (simp add: wrongIngressConfig_def)
  then have "Kourier (resolveIngress (Some wrongIngressConfig))
               = \<lparr> Enabled = True, ServiceType = Some ClusterIP \<rparr>
       \<and> \<not> Enabled (Istio (resolveIngress (Some wrongIngressConfig)))
       \<and> \<not> Enabled (Contour (resolveIngress (Some wrongIngressConfig)))"
    using resolveIngress_self_heal [of "Some wrongIngressConfig"] by simp
  moreover have "Istio (resolveIngress (Some wrongIngressConfig)) = Istio wrongIngressConfig
       \<and> Contour (resolveIngress (Some wrongIngressConfig)) = Contour wrongIngressConfig"
    by (simp add: resolveIngress_def enabledCount_def wrongIngressConfig_def)
  ultimately have b: "resolveIngress (Some wrongIngressConfig) = fixedIngressConfig"
    by (simp add: fixedIngressConfig_def wrongIngressConfig_def IngressConfigs.equality)
  have c: "enabledCount wrongIngressConfig = 0"
    using w by (simp add: enabledCount_zero)
  show ?thesis using a b c by simp
qed

text \<open>The model agrees with every row of \<open>TestMonitoring\<close>.\<close>

lemma monitoringPolicy_TestMonitoring:
  "list_all (\<lambda>(toggle, backend, enabled, backend').
       monitoringPolicy backend toggle = (FormatBool enabled, backend')) TestMonitoring_cases"
  by (simp add: TestMonitoring_cases_def monitoringPolicy_def FormatBool_def)

lemma monitoringPolicy_idem:
  "monitoringPolicy (snd (monitoringPolicy backend toggle)) toggle = monitoringPolicy backend toggle"
  by (simp add: monitoringPolicy_def split: option.splits)

text \<open>
  C9. Monitoring precedence. An explicit backend is left untouched, and the label is
  \<open>false\<close> exactly when it is \<open>none\<close>. Without one, a set toggle gives the label: a
  false toggle also writes the backend \<open>none\<close>, a true one leaves it unset. With
  neither, the label is \<open>true\<close> and the backend stays unset.
\<close>

theorem monitoringPolicy_precedence:
  "(backend = Some b \<longrightarrow>
      snd (monitoringPolicy backend toggle) = Some b \<and>
      fst (monitoringPolicy backend toggle) \<in> {''true'', ''false''} \<and>
      (fst (monitoringPolicy backend toggle) = ''false'') = (b = ''none''))
   \<and> (backend = None \<and> toggle = Some True \<longrightarrow>
        monitoringPolicy backend toggle = (''true'', None))
   \<and> (backend = None \<and> toggle = Some False \<longrightarrow>
        monitoringPolicy backend toggle = (''false'', Some ''none''))
   \<and> (backend = None \<and> toggle = None \<longrightarrow>
        monitoringPolicy backend toggle = (''true'', None))"
  by (simp add: monitoringPolicy_def)

text \<open>The three cases the specification lists, and a backend other than \<open>none\<close>.\<close>

theorem monitoringPolicy_precedence_witness:
  "monitoringPolicy (Some ''none'') (Some True) = (''false'', Some ''none'')
   \<and> monitoringPolicy (Some ''prometheus'') (Some False) = (''true'', Some ''prometheus'')
   \<and> monitoringPolicy None (Some True) = (''true'', None)
   \<and> monitoringPolicy None (Some False) = (''false'', Some ''none'')
   \<and> monitoringPolicy None None = (''true'', None)"
proof -
  have a: "monitoringPolicy (Some ''none'') (Some True) = (''false'', Some ''none'')"
    using monitoringPolicy_precedence [of "Some ''none''" "''none''" "Some True"]
    by (simp add: prod_eq_iff)
  have b: "monitoringPolicy (Some ''prometheus'') (Some False) = (''true'', Some ''prometheus'')"
    using monitoringPolicy_precedence [of "Some ''prometheus''" "''prometheus''" "Some False"]
    by (auto simp: prod_eq_iff)
  have c: "monitoringPolicy None (Some True) = (''true'', None)"
    using monitoringPolicy_precedence [of None "[]" "Some True"] by simp
  have d: "monitoringPolicy None (Some False) = (''false'', Some ''none'')"
    using monitoringPolicy_precedence [of None "[]" "Some False"] by simp
  have e: "monitoringPolicy None None = (''true'', None)"
    using monitoringPolicy_precedence [of None "[]" None] by simp
  show ?thesis using a b c d e by simp
qed

end
